theory Spec2Isabelle
  imports Main "HOL-Library.Word"
begin

section \<open>RP\_Log: a ring-buffer logging facility\<close>

text \<open>
  A shallow embedding of \<^verbatim>\<open>RP_Log.c\<close> and \<^verbatim>\<open>RP_Log.h\<close>. Every C function is a HOL
  function of the same name that takes the objects it reads and returns the objects it
  writes. A byte array (\<^verbatim>\<open>uint8_t[]\<close> or \<^verbatim>\<open>char *\<close>) is a \<^typ>\<open>string\<close>: HOL characters
  are exactly the 256 byte values. A \<^verbatim>\<open>uint16_t\<close> is a \<^typ>\<open>16 word\<close>, and C's integer
  promotion of it is written \<^term>\<open>unat\<close>.
\<close>

subsection \<open>Types and configuration constants of the header\<close>

type_synonym uint8_t = "8 word"
type_synonym uint16_t = "16 word"
type_synonym uint32_t = "32 word"

datatype RP_LogLevel_t =
    RP_LOG_LEVEL_FATAL
  | RP_LOG_LEVEL_ERROR
  | RP_LOG_LEVEL_WARN
  | RP_LOG_LEVEL_INFO
  | RP_LOG_LEVEL_DEBUG
  | RP_LOG_LEVEL_TRACE

datatype RP_LogOutputRange_t =
    RP_LOG_OUTPUT_FATAL_ONLY
  | RP_LOG_OUTPUT_FATAL_TO_ERROR
  | RP_LOG_OUTPUT_FATAL_TO_WARN
  | RP_LOG_OUTPUT_FATAL_TO_INFO
  | RP_LOG_OUTPUT_FATAL_TO_DEBUG
  | RP_LOG_OUTPUT_ALL

text \<open>The numeric value of an enumerator of \<^verbatim>\<open>RP_LogLevel_t\<close> (\<^verbatim>\<open>RP_LOG_LEVEL_FATAL = 0\<close>).\<close>

fun level_value :: "RP_LogLevel_t \<Rightarrow> nat" where
  "level_value RP_LOG_LEVEL_FATAL = 0"
| "level_value RP_LOG_LEVEL_ERROR = 1"
| "level_value RP_LOG_LEVEL_WARN = 2"
| "level_value RP_LOG_LEVEL_INFO = 3"
| "level_value RP_LOG_LEVEL_DEBUG = 4"
| "level_value RP_LOG_LEVEL_TRACE = 5"

definition RP_LOG_ENTRY_MAX_SIZE :: nat where
  "RP_LOG_ENTRY_MAX_SIZE = 256"

definition RP_LOG_RING_BUFFER_CNT :: nat where
  "RP_LOG_RING_BUFFER_CNT = 16"

record RP_LogConfigParam_t =
  output_range :: RP_LogOutputRange_t
  use_timestamp :: uint8_t
  rtt_use_color :: uint8_t

text \<open>
  The field \<^verbatim>\<open>length\<close> of an entry is called \<open>length_f\<close> here (\<open>length\<close> is the length of
  a HOL list). \<open>data\<close> is the array of \<^verbatim>\<open>RP_LOG_ENTRY_MAX_SIZE\<close> bytes.
\<close>

record RP_LogEntry_t =
  data :: string
  length_f :: uint16_t

record RP_LogRingBuffer_t =
  entries :: "RP_LogEntry_t list"
  head :: uint16_t
  tail :: uint16_t
  count :: uint16_t

text \<open>
  The function pointers of \<^verbatim>\<open>RP_Log_t\<close> are fixed by the initialiser of \<^verbatim>\<open>g_rp_log\<close> and
  never reassigned; the model calls the functions directly.
\<close>

record RP_Log_t =
  config_param :: RP_LogConfigParam_t
  ring_buffer :: RP_LogRingBuffer_t

text \<open>A pointer argument that the code compares with \<^verbatim>\<open>NULL\<close>.\<close>

datatype 'a ptr = NULL | Ptr (deref: 'a)

definition NUL :: char where
  "NUL = CHR 0x00"

definition CR :: char where
  "CR = CHR 0x0D"

definition LF :: char where
  "LF = CHR 0x0A"

subsection \<open>The ring buffer\<close>

text \<open>
  \<^verbatim>\<open>memcpy(dst, src, n)\<close> on arrays: the first \<open>n\<close> bytes of \<open>dst\<close> become those of
  \<open>src\<close>, the rest of \<open>dst\<close> stays. The C call needs \<open>n\<close> readable bytes in \<open>src\<close> and \<open>n\<close>
  writable bytes in \<open>dst\<close>.
\<close>

definition memcpy :: "string \<Rightarrow> string \<Rightarrow> nat \<Rightarrow> string" where
  "memcpy dst src n = take n src @ drop n dst"

text \<open>
  \<^verbatim>\<open>(index + 1) % max\<close>: both operands are promoted to \<^verbatim>\<open>int\<close>, so the sum does not
  wrap; the result is converted back to \<^verbatim>\<open>uint16_t\<close>.
\<close>

definition RB_GetNextIndex :: "uint16_t \<Rightarrow> uint16_t \<Rightarrow> uint16_t" where
  "RB_GetNextIndex index max' = word_of_nat ((unat index + 1) mod unat max')"

definition RB_IsFull :: "RP_LogRingBuffer_t \<Rightarrow> bool" where
  "RB_IsFull rb \<longleftrightarrow> unat (count rb) \<ge> RP_LOG_RING_BUFFER_CNT"

definition RB_IsEmpty :: "RP_LogRingBuffer_t \<Rightarrow> bool" where
  "RB_IsEmpty rb \<longleftrightarrow> count rb = 0"

text \<open>
  \<open>RB_Push rb data length\<close> returns the C return value and the ring buffer after the
  call. \<open>entries[head]\<close> is a list access: the C code indexes an array of
  \<^verbatim>\<open>RP_LOG_RING_BUFFER_CNT\<close> entries, and \<open>head\<close> and \<open>tail\<close> stay below that bound in every
  state that the calls reach from the zeroed ring buffer (\<open>rb_indices\<close> below).
\<close>

definition RB_Push ::
  "RP_LogRingBuffer_t \<Rightarrow> string \<Rightarrow> uint16_t \<Rightarrow> int \<times> RP_LogRingBuffer_t" where
  "RB_Push rb dat len =
     (if RB_IsFull rb then (- 1, rb)
      else
        let len' = (if unat len > RP_LOG_ENTRY_MAX_SIZE
                    then word_of_nat RP_LOG_ENTRY_MAX_SIZE else len);
            h = unat (head rb);
            e = entries rb ! h;
            e1 = e\<lparr>data := memcpy (data e) dat (unat len')\<rparr>;
            e2 = e1\<lparr>length_f := len'\<rparr>
        in (0, rb\<lparr>entries := (entries rb)[h := e2],
                    head := RB_GetNextIndex (head rb) (word_of_nat RP_LOG_RING_BUFFER_CNT),
                    count := count rb + 1\<rparr>))"

text \<open>
  \<open>RB_Pop rb data length\<close> takes the caller's buffer and length variable (the targets of
  the two out-pointers) and returns the C return value, the ring buffer, the buffer and
  the length variable after the call.
\<close>

definition RB_Pop ::
  "RP_LogRingBuffer_t \<Rightarrow> string \<Rightarrow> uint16_t
     \<Rightarrow> int \<times> RP_LogRingBuffer_t \<times> string \<times> uint16_t" where
  "RB_Pop rb dat len =
     (if RB_IsEmpty rb then (- 1, rb, dat, len)
      else
        let t = unat (tail rb);
            len' = length_f (entries rb ! t);
            dat' = memcpy dat (data (entries rb ! t)) (unat len')
        in (0, rb\<lparr>tail := RB_GetNextIndex (tail rb) (word_of_nat RP_LOG_RING_BUFFER_CNT),
                    count := count rb - 1\<rparr>, dat', len'))"

text \<open>The ring buffer after \<^verbatim>\<open>memset(&rb, 0, sizeof rb)\<close> or the initialiser \<^verbatim>\<open>{0}\<close>.\<close>

definition rb_zero :: RP_LogRingBuffer_t where
  "rb_zero =
     \<lparr>entries = replicate RP_LOG_RING_BUFFER_CNT
                  \<lparr>data = replicate RP_LOG_ENTRY_MAX_SIZE NUL, length_f = 0\<rparr>,
      head = 0, tail = 0, count = 0\<rparr>"

text \<open>Sequences of ring-buffer calls; the results of a pop are discarded.\<close>

datatype rb_op = Push "string" uint16_t | Pop "string" uint16_t

fun rb_step :: "RP_LogRingBuffer_t \<Rightarrow> rb_op \<Rightarrow> RP_LogRingBuffer_t" where
  "rb_step rb (Push dat len) = snd (RB_Push rb dat len)"
| "rb_step rb (Pop dat len) = fst (snd (RB_Pop rb dat len))"

definition rb_run :: "rb_op list \<Rightarrow> RP_LogRingBuffer_t \<Rightarrow> RP_LogRingBuffer_t" where
  "rb_run ops rb = foldl rb_step rb ops"

text \<open>The bounds on the three index fields.\<close>

definition rb_indices :: "RP_LogRingBuffer_t \<Rightarrow> bool" where
  "rb_indices rb \<longleftrightarrow>
     unat (count rb) \<le> RP_LOG_RING_BUFFER_CNT \<and>
     unat (head rb) < RP_LOG_RING_BUFFER_CNT \<and>
     unat (tail rb) < RP_LOG_RING_BUFFER_CNT"

text \<open>
  The abstraction used to state the queue properties: the record held by an entry (its
  first \<open>length\<close> bytes) and the records of the occupied slots, oldest first.
\<close>

definition record_of :: "RP_LogEntry_t \<Rightarrow> string" where
  "record_of e = take (unat (length_f e)) (data e)"

definition contents :: "RP_LogRingBuffer_t \<Rightarrow> string list" where
  "contents rb =
     map (\<lambda>i. record_of (entries rb ! ((unat (tail rb) + i) mod RP_LOG_RING_BUFFER_CNT)))
       [0 ..< unat (count rb)]"

text \<open>
  The states of a ring buffer in which the C code is defined: the arrays have their
  declared sizes, no stored length exceeds the entry size, the indices are in range and
  \<open>head\<close> is \<open>count\<close> slots after \<open>tail\<close>.
\<close>

definition entry_valid :: "RP_LogEntry_t \<Rightarrow> bool" where
  "entry_valid e \<longleftrightarrow>
     length (data e) = RP_LOG_ENTRY_MAX_SIZE \<and> unat (length_f e) \<le> RP_LOG_ENTRY_MAX_SIZE"

definition rb_valid :: "RP_LogRingBuffer_t \<Rightarrow> bool" where
  "rb_valid rb \<longleftrightarrow>
     length (entries rb) = RP_LOG_RING_BUFFER_CNT \<and>
     list_all entry_valid (entries rb) \<and>
     rb_indices rb \<and>
     unat (head rb) = (unat (tail rb) + unat (count rb)) mod RP_LOG_RING_BUFFER_CNT"

text \<open>The record that a pop hands to its caller: the first \<open>length\<close> bytes of the buffer.\<close>

definition pop_record_out :: "int \<times> RP_LogRingBuffer_t \<times> string \<times> uint16_t \<Rightarrow> string" where
  "pop_record_out r = take (unat (snd (snd (snd r)))) (fst (snd (snd r)))"

subsection \<open>Level filter\<close>

text \<open>
  The \<^verbatim>\<open>switch\<close> at the start of \<^verbatim>\<open>RP_Log_Write\<close>: true where it returns \<^verbatim>\<open>-1\<close>. The
  comparisons are on the enumerators' values.
\<close>

fun level_rejected :: "RP_LogOutputRange_t \<Rightarrow> RP_LogLevel_t \<Rightarrow> bool" where
  "level_rejected RP_LOG_OUTPUT_FATAL_ONLY level = (level \<noteq> RP_LOG_LEVEL_FATAL)"
| "level_rejected RP_LOG_OUTPUT_FATAL_TO_ERROR level =
     (level_value level > level_value RP_LOG_LEVEL_ERROR)"
| "level_rejected RP_LOG_OUTPUT_FATAL_TO_WARN level =
     (level_value level > level_value RP_LOG_LEVEL_WARN)"
| "level_rejected RP_LOG_OUTPUT_FATAL_TO_INFO level =
     (level_value level > level_value RP_LOG_LEVEL_INFO)"
| "level_rejected RP_LOG_OUTPUT_FATAL_TO_DEBUG level =
     (level_value level > level_value RP_LOG_LEVEL_DEBUG)"
| "level_rejected RP_LOG_OUTPUT_ALL level = False"



subsection \<open>File name extraction\<close>

definition BACKSLASH :: char where
  "BACKSLASH = CHR 0x5C"

definition SLASH :: char where
  "SLASH = CHR 0x2F"

text \<open>
  \<^verbatim>\<open>strrchr(s, c)\<close>: the index of the last occurrence of \<open>c\<close> in \<open>s\<close>, \<open>None\<close> for the \<^verbatim>\<open>NULL\<close>
  result. A C string has no inner \<^verbatim>\<open>'\0'\<close>, and the code never searches for it.
\<close>

fun strrchr :: "string \<Rightarrow> char \<Rightarrow> nat option" where
  "strrchr [] c = None"
| "strrchr (x # xs) c =
     (case strrchr xs c of
        Some i \<Rightarrow> Some (Suc i)
      | None \<Rightarrow> if x = c then Some 0 else None)"

text \<open>
  The value of the local \<^verbatim>\<open>filename\<close> after the block that extracts the file name:
  \<^verbatim>\<open>slash + 1\<close> is the string that starts one character after the occurrence found.
\<close>

definition extract_filename :: "string \<Rightarrow> string" where
  "extract_filename file =
     (case strrchr file BACKSLASH of
        Some i \<Rightarrow> drop (i + 1) file
      | None \<Rightarrow>
          (case strrchr file SLASH of
             Some j \<Rightarrow> drop (j + 1) file
           | None \<Rightarrow> file))"

text \<open>
  The last path component as the specification words it: everything up to and including
  the last \<^verbatim>\<open>/\<close> or \<^verbatim>\<open>\\<close> is stripped.
\<close>

definition is_separator :: "char \<Rightarrow> bool" where
  "is_separator c \<longleftrightarrow> c = SLASH \<or> c = BACKSLASH"

definition last_component_spec :: "string \<Rightarrow> string" where
  "last_component_spec file = rev (takeWhile (\<lambda>c. \<not> is_separator c) (rev file))"

subsection \<open>Formatting\<close>

fun g_level_names :: "RP_LogLevel_t \<Rightarrow> string" where
  "g_level_names RP_LOG_LEVEL_FATAL = ''FATAL''"
| "g_level_names RP_LOG_LEVEL_ERROR = ''ERROR''"
| "g_level_names RP_LOG_LEVEL_WARN = ''WARN ''"
| "g_level_names RP_LOG_LEVEL_INFO = ''INFO ''"
| "g_level_names RP_LOG_LEVEL_DEBUG = ''DEBUG''"
| "g_level_names RP_LOG_LEVEL_TRACE = ''TRACE''"

text \<open>
  The conversions of the C library that the format strings use: \<^verbatim>\<open>%lu\<close> on the 32-bit
  tick counter and \<^verbatim>\<open>%d\<close> on the line number print decimal digits, \<^verbatim>\<open>%d\<close> with a minus
  sign for a negative value.
\<close>

definition digit_char :: "nat \<Rightarrow> char" where
  "digit_char d = ''0123456789'' ! d"

fun dec :: "nat \<Rightarrow> string" where
  "dec n = (if n < 10 then [digit_char n] else dec (n div 10) @ [digit_char (n mod 10)])"

declare dec.simps [simp del]

definition fmt_lu :: "uint32_t \<Rightarrow> string" where
  "fmt_lu v = dec (unat v)"

definition fmt_d :: "int \<Rightarrow> string" where
  "fmt_d i = (if i < 0 then CHR ''-'' # dec (nat (- i)) else dec (nat i))"

text \<open>The text that \<^verbatim>\<open>"[%lu] "\<close> prints for a tick value.\<close>

definition fmt_timestamp :: "uint32_t \<Rightarrow> string" where
  "fmt_timestamp tick = ''['' @ fmt_lu tick @ ''] ''"

text \<open>The text that \<^verbatim>\<open>"[%s][%s:%d]: "\<close> prints for a level name, a file name and a line.\<close>

definition fmt_location :: "string \<Rightarrow> string \<Rightarrow> int \<Rightarrow> string" where
  "fmt_location name filename line =
     ''['' @ name @ '']['' @ filename @ '':'' @ fmt_d line @ '']: ''"

text \<open>
  An uninitialised local array of \<open>n\<close> bytes: its content is indeterminate, so the functions
  that declare one take the content as a parameter \<open>init\<close>, the byte at each index.
\<close>

definition local_array :: "(nat \<Rightarrow> char) \<Rightarrow> nat \<Rightarrow> string" where
  "local_array init n = map init [0 ..< n]"

text \<open>
  \<open>snprintf buf off n s\<close> is \<^verbatim>\<open>snprintf(buf + off, n, ...)\<close> where the conversions print
  the text \<open>s\<close>: for \<open>n > 0\<close> it stores the first \<open>n - 1\<close> characters of \<open>s\<close> and a
  terminating \<^verbatim>\<open>'\0'\<close> from offset \<open>off\<close> on, for \<open>n = 0\<close> it stores nothing, and it returns
  the length of \<open>s\<close> in both cases. The result is the array after the call and the
  return value.
\<close>

definition store_at :: "string \<Rightarrow> nat \<Rightarrow> string \<Rightarrow> string" where
  "store_at buf off xs = take off buf @ xs @ drop (off + length xs) buf"

definition snprintf :: "string \<Rightarrow> nat \<Rightarrow> nat \<Rightarrow> string \<Rightarrow> string \<times> nat" where
  "snprintf buf off n s =
     (if n = 0 then (buf, length s)
      else (store_at buf off (take (n - 1) s @ [NUL]), length s))"

text \<open>
  Every formatting call of \<^verbatim>\<open>RP_Log_Write\<close> has the shape
  \<^verbatim>\<open>snprintf((char *)buffer + len, RP_LOG_ENTRY_MAX_SIZE - len, ...)\<close>. The size argument
  is an \<^verbatim>\<open>int\<close> converted to \<^verbatim>\<open>size_t\<close>: once \<open>len\<close> exceeds the array size the pointer
  is outside the array and the size wraps to a huge value, so the call writes outside
  \<open>buffer\<close>. The model returns the error \<open>BufferOverrun\<close> there.
\<close>

datatype error = BufferOverrun

definition snprintf_at :: "string \<Rightarrow> nat \<Rightarrow> string \<Rightarrow> error + string \<times> nat" where
  "snprintf_at buffer len s =
     (if len > RP_LOG_ENTRY_MAX_SIZE then Inl BufferOverrun
      else Inr (snprintf buffer len (RP_LOG_ENTRY_MAX_SIZE - len) s))"

text \<open>
  Modelled from the spec: the macro \<^verbatim>\<open>USE_HAL_DRIVER\<close> is set by the build of the firmware
  and is missing from the sources at hand. The specification has the timestamp segment
  included iff timestamps are configured, so the macro is taken as defined.
\<close>

definition USE_HAL_DRIVER :: bool where
  "USE_HAL_DRIVER = True"

text \<open>
  The formatting part of \<^verbatim>\<open>RP_Log_Write\<close>, from \<^verbatim>\<open>int len = 0\<close> to the line break: the
  result is \<open>buffer\<close> and \<open>len\<close> as they are passed to \<^verbatim>\<open>RB_Push\<close>. \<open>buffer0\<close> is the local
  array \<open>buffer\<close> as declared, \<open>tick\<close> the value that \<^verbatim>\<open>HAL_GetTick()\<close> returns, and
  \<open>message\<close> the text that the conversions of the caller's format string print for the
  caller's arguments (\<^verbatim>\<open>vsnprintf\<close> returns its length).
\<close>

definition format_entry ::
  "RP_LogConfigParam_t \<Rightarrow> RP_LogLevel_t \<Rightarrow> string \<Rightarrow> int \<Rightarrow> string \<Rightarrow> uint32_t \<Rightarrow> string
     \<Rightarrow> error + string \<times> nat" where
  "format_entry cfg level filename line message tick buffer0 =
     (case (if use_timestamp cfg \<noteq> 0 \<and> USE_HAL_DRIVER
            then snprintf_at buffer0 0 (fmt_timestamp tick)
            else Inr (buffer0, 0)) of
        Inl e \<Rightarrow> Inl e
      | Inr (buffer1, len1) \<Rightarrow>
          (case snprintf_at buffer1 len1
                  (fmt_location (g_level_names level) filename line) of
             Inl e \<Rightarrow> Inl e
           | Inr (buffer2, n2) \<Rightarrow>
               (case snprintf_at buffer2 (len1 + n2) message of
                  Inl e \<Rightarrow> Inl e
                | Inr (buffer3, n3) \<Rightarrow>
                    let len3 = len1 + n2 + n3;
                        len4 = (if len3 \<ge> RP_LOG_ENTRY_MAX_SIZE - 2
                                then RP_LOG_ENTRY_MAX_SIZE - 3 else len3);
                        buffer4 = buffer3[len4 := CR];
                        buffer5 = buffer4[len4 + 1 := LF]
                    in Inr (buffer5, len4 + 2))))"

subsection \<open>The facility\<close>

text \<open>
  \<open>RP_Log_Write log level file line message tick init\<close> returns the C return value and
  the object that \<open>log\<close> points to after the call; \<open>init\<close> is the indeterminate content of
  the local array \<open>buffer\<close>. The RTT output is compiled out (\<^verbatim>\<open>RP_LOG_USE_RTT\<close> is 0).
\<close>

definition RP_Log_Write ::
  "RP_Log_t ptr \<Rightarrow> RP_LogLevel_t \<Rightarrow> string \<Rightarrow> int \<Rightarrow> string \<Rightarrow> uint32_t \<Rightarrow> (nat \<Rightarrow> char)
     \<Rightarrow> error + int \<times> RP_Log_t ptr" where
  "RP_Log_Write log level file line message tick init =
     (case log of
        NULL \<Rightarrow> Inr (- 1, NULL)
      | Ptr lg \<Rightarrow>
          if level_rejected (output_range (config_param lg)) level then Inr (- 1, Ptr lg)
          else
            (case format_entry (config_param lg) level (extract_filename file) line
                    message tick (local_array init RP_LOG_ENTRY_MAX_SIZE) of
               Inl e \<Rightarrow> Inl e
             | Inr (buffer, len) \<Rightarrow>
                 let (ret, rb) = RB_Push (ring_buffer lg) buffer (word_of_nat len)
                 in if ret \<noteq> 0 then Inr (- 1, Ptr (lg\<lparr>ring_buffer := rb\<rparr>))
                    else Inr (0, Ptr (lg\<lparr>ring_buffer := rb\<rparr>))))"

text \<open>
  The transport \<^verbatim>\<open>RP_Log_Transmit\<close> is a weak symbol that the firmware overrides, so
  \<open>RP_Log_Work\<close> takes it as a parameter. \<open>init\<close> and \<open>length0\<close> are the indeterminate
  contents of the two uninitialised locals \<open>buffer\<close> and \<open>length\<close>. The result is the object that \<open>log\<close> points to after the
  call and the arguments of the call of the transport, if one was made.
\<close>

definition RP_Log_Transmit :: "string \<Rightarrow> uint16_t \<Rightarrow> int" where
  "RP_Log_Transmit dat len = - 1"

definition RP_Log_Work ::
  "(string \<Rightarrow> uint16_t \<Rightarrow> int) \<Rightarrow> RP_Log_t ptr \<Rightarrow> (nat \<Rightarrow> char) \<Rightarrow> uint16_t
     \<Rightarrow> RP_Log_t ptr \<times> (string \<times> uint16_t) option" where
  "RP_Log_Work transmit log init length0 =
     (case log of
        NULL \<Rightarrow> (NULL, None)
      | Ptr lg \<Rightarrow>
          let (ret, rb, buffer, len) =
                RB_Pop (ring_buffer lg) (local_array init RP_LOG_ENTRY_MAX_SIZE) length0
          in if ret = 0 then
               (if transmit buffer len \<noteq> 0
                then (Ptr (lg\<lparr>ring_buffer := snd (RB_Push rb buffer len)\<rparr>), Some (buffer, len))
                else (Ptr (lg\<lparr>ring_buffer := rb\<rparr>), Some (buffer, len)))
             else (Ptr (lg\<lparr>ring_buffer := rb\<rparr>), None))"

text \<open>
  A run of \<open>RP_Log_Work\<close> calls with one transport, as the consumer loop makes them; each
  call has its own uninitialised locals.
\<close>

definition work_run ::
  "(string \<Rightarrow> uint16_t \<Rightarrow> int) \<Rightarrow> RP_Log_t ptr \<Rightarrow> ((nat \<Rightarrow> char) \<times> uint16_t) list
     \<Rightarrow> RP_Log_t ptr" where
  "work_run transmit log locals =
     foldl (\<lambda>l (init, length0). fst (RP_Log_Work transmit l init length0)) log locals"

definition RP_Log_GetCount :: "RP_Log_t ptr \<Rightarrow> uint16_t" where
  "RP_Log_GetCount log = (case log of NULL \<Rightarrow> 0 | Ptr lg \<Rightarrow> count (ring_buffer lg))"

definition RP_Log_Flush :: "RP_Log_t ptr \<Rightarrow> RP_Log_t ptr" where
  "RP_Log_Flush log =
     (case log of NULL \<Rightarrow> NULL | Ptr lg \<Rightarrow> Ptr (lg\<lparr>ring_buffer := rb_zero\<rparr>))"

text \<open>The initial value of the global instance.\<close>

definition g_rp_log :: RP_Log_t where
  "g_rp_log =
     \<lparr>config_param =
        \<lparr>output_range = RP_LOG_OUTPUT_ALL, use_timestamp = 1, rtt_use_color = 1\<rparr>,
      ring_buffer = rb_zero\<rparr>"

text \<open>The record that a call of the transport is asked to send.\<close>

definition sent_record :: "(string \<times> uint16_t) option \<Rightarrow> string option" where
  "sent_record call = map_option (\<lambda>(buffer, len). take (unat len) buffer) call"

subsection \<open>What a write stores\<close>

text \<open>
  The names used to state the formatting properties. \<open>rendered_prefix\<close> is the text of the
  timestamp segment and the location segment, as the format strings print it in full.
  \<open>stored_text full\<close> cuts the full text of prefix and message where the overflow guard
  of \<^verbatim>\<open>RP_Log_Write\<close> cuts it and appends the line break. \<open>holds_text buf s\<close> relates
  the local array to the text printed so far: the array has its declared size and begins
  with \<open>s\<close>, cut after 255 characters.
\<close>

definition rendered_prefix ::
  "RP_LogConfigParam_t \<Rightarrow> RP_LogLevel_t \<Rightarrow> string \<Rightarrow> int \<Rightarrow> uint32_t \<Rightarrow> string" where
  "rendered_prefix cfg level file line tick =
     (if use_timestamp cfg \<noteq> 0 \<and> USE_HAL_DRIVER then fmt_timestamp tick else []) @
     fmt_location (g_level_names level) (extract_filename file) line"

definition stored_text :: "string \<Rightarrow> string" where
  "stored_text full =
     (if length full \<ge> RP_LOG_ENTRY_MAX_SIZE - 2
      then take (RP_LOG_ENTRY_MAX_SIZE - 3) full else full) @ [CR, LF]"

definition holds_text :: "string \<Rightarrow> string \<Rightarrow> bool" where
  "holds_text buf s \<longleftrightarrow>
     length buf = RP_LOG_ENTRY_MAX_SIZE \<and>
     take (min (RP_LOG_ENTRY_MAX_SIZE - 1) (length s)) buf = take (RP_LOG_ENTRY_MAX_SIZE - 1) s"

subsection \<open>Example inputs\<close>


definition plain_log :: RP_Log_t where
  "plain_log =
     g_rp_log\<lparr>config_param :=
       \<lparr>output_range = RP_LOG_OUTPUT_ALL, use_timestamp = 0, rtt_use_color = 1\<rparr>\<rparr>"

definition zero_bytes :: "nat \<Rightarrow> char" where
  "zero_bytes i = NUL"

definition long_message :: string where
  "long_message = replicate 300 (CHR ''a'')"

definition transmit_ok :: "string \<Rightarrow> uint16_t \<Rightarrow> int" where
  "transmit_ok dat len = 0"

definition one_record_log :: RP_Log_t where
  "one_record_log = g_rp_log\<lparr>ring_buffer := snd (RB_Push rb_zero ''first'' 5)\<rparr>"

definition two_record_log :: RP_Log_t where
  "two_record_log =
     g_rp_log\<lparr>ring_buffer := snd (RB_Push (snd (RB_Push rb_zero ''first'' 5)) ''second'' 6)\<rparr>"

subsection \<open>Index arithmetic\<close>

lemma unat_RB_GetNextIndex:
  "unat (RB_GetNextIndex i (word_of_nat RP_LOG_RING_BUFFER_CNT)) =
     (unat i + 1) mod RP_LOG_RING_BUFFER_CNT"
proof -
  have "(unat i + 1) mod 16 < 65536"
    by (rule less_trans [of _ 16]) simp_all
  then show ?thesis
    by (simp add: RB_GetNextIndex_def RP_LOG_RING_BUFFER_CNT_def unat_of_nat)
qed

lemma unat_count_succ:
  fixes c :: uint16_t
  assumes "unat c < RP_LOG_RING_BUFFER_CNT"
  shows "unat (c + 1) = unat c + 1"
proof -
  have "unat c + 1 < 2 ^ 16"
    using assms by (simp add: RP_LOG_RING_BUFFER_CNT_def)
  then show ?thesis
    by (simp add: unat_word_ariths)
qed

lemma unat_count_pred:
  fixes c :: uint16_t
  assumes "c \<noteq> 0"
  shows "unat (c - 1) = unat c - 1"
  using assms by (simp add: unat_minus_one)

lemma push_full: "RB_IsFull rb \<Longrightarrow> RB_Push rb dat len = (- 1, rb)"
  by (simp add: RB_Push_def)

lemma pop_empty: "RB_IsEmpty rb \<Longrightarrow> RB_Pop rb dat len = (- 1, rb, dat, len)"
  by (simp add: RB_Pop_def)

lemma push_fields:
  assumes "\<not> RB_IsFull rb"
  shows "fst (RB_Push rb dat len) = 0"
    and "unat (count (snd (RB_Push rb dat len))) = unat (count rb) + 1"
    and "unat (head (snd (RB_Push rb dat len))) = (unat (head rb) + 1) mod RP_LOG_RING_BUFFER_CNT"
    and "tail (snd (RB_Push rb dat len)) = tail rb"
proof -
  have c: "unat (count rb) < RP_LOG_RING_BUFFER_CNT"
    using assms by (simp add: RB_IsFull_def)
  show "fst (RB_Push rb dat len) = 0"
    using assms by (simp add: RB_Push_def Let_def)
  show "unat (count (snd (RB_Push rb dat len))) = unat (count rb) + 1"
    using assms by (simp add: RB_Push_def Let_def unat_count_succ [OF c])
  show "unat (head (snd (RB_Push rb dat len))) = (unat (head rb) + 1) mod RP_LOG_RING_BUFFER_CNT"
    using assms by (simp add: RB_Push_def Let_def unat_RB_GetNextIndex)
  show "tail (snd (RB_Push rb dat len)) = tail rb"
    using assms by (simp add: RB_Push_def Let_def)
qed

lemma pop_fields:
  assumes "\<not> RB_IsEmpty rb"
  shows "fst (RB_Pop rb dat len) = 0"
    and "unat (count (fst (snd (RB_Pop rb dat len)))) = unat (count rb) - 1"
    and "unat (tail (fst (snd (RB_Pop rb dat len)))) = (unat (tail rb) + 1) mod RP_LOG_RING_BUFFER_CNT"
    and "head (fst (snd (RB_Pop rb dat len))) = head rb"
    and "entries (fst (snd (RB_Pop rb dat len))) = entries rb"
proof -
  have c: "count rb \<noteq> 0"
    using assms by (simp add: RB_IsEmpty_def)
  show "fst (RB_Pop rb dat len) = 0"
    using assms by (simp add: RB_Pop_def Let_def)
  show "unat (count (fst (snd (RB_Pop rb dat len)))) = unat (count rb) - 1"
    using assms by (simp add: RB_Pop_def Let_def unat_count_pred [OF c])
  show "unat (tail (fst (snd (RB_Pop rb dat len)))) = (unat (tail rb) + 1) mod RP_LOG_RING_BUFFER_CNT"
    using assms by (simp add: RB_Pop_def Let_def unat_RB_GetNextIndex)
  show "head (fst (snd (RB_Pop rb dat len))) = head rb"
    using assms by (simp add: RB_Pop_def Let_def)
  show "entries (fst (snd (RB_Pop rb dat len))) = entries rb"
    using assms by (simp add: RB_Pop_def Let_def)
qed

lemma rb_indices_zero: "rb_indices rb_zero"
  by (simp add: rb_indices_def rb_zero_def RP_LOG_RING_BUFFER_CNT_def)

lemma rb_indices_push: 
  assumes "rb_indices rb" shows "rb_indices (snd (RB_Push rb dat len))"
proof (cases "RB_IsFull rb")
  case True
  then show ?thesis using assms by (simp add: push_full)
next
  case False
  have "unat (count rb) < RP_LOG_RING_BUFFER_CNT"
    using False by (simp add: RB_IsFull_def)
  then show ?thesis
    using assms push_fields [OF False, of dat len]
    by (simp add: rb_indices_def RP_LOG_RING_BUFFER_CNT_def)
qed

lemma rb_indices_pop: 
  assumes "rb_indices rb" shows "rb_indices (fst (snd (RB_Pop rb dat len)))"
proof (cases "RB_IsEmpty rb")
  case True
  then show ?thesis using assms by (simp add: pop_empty)
next
  case False
  then show ?thesis
    using assms pop_fields [OF False, of dat len]
    by (auto simp: rb_indices_def RP_LOG_RING_BUFFER_CNT_def)
qed

lemma rb_indices_step: "rb_indices rb \<Longrightarrow> rb_indices (rb_step rb x)"
  by (cases x) (simp_all add: rb_indices_push rb_indices_pop)

lemma rb_indices_run: "rb_indices rb \<Longrightarrow> rb_indices (rb_run ops rb)"
  unfolding rb_run_def
  by (induction ops arbitrary: rb) (simp_all add: rb_indices_step)

subsection \<open>The bounds of the ring buffer\<close>

text \<open>
  Claim C1. After every sequence of \<open>RB_Push\<close> and \<open>RB_Pop\<close> calls that starts from the
  zeroed ring buffer, \<open>count\<close> is between 0 and \<open>RP_LOG_RING_BUFFER_CNT\<close>, \<open>head\<close> and \<open>tail\<close>
  are indices below \<open>RP_LOG_RING_BUFFER_CNT\<close>, a push at \<open>count = RP_LOG_RING_BUFFER_CNT\<close>
  returns \<open>-1\<close> and leaves the ring buffer as it is, and a pop at \<open>count = 0\<close> returns \<open>-1\<close>
  and leaves the ring buffer and the caller's variables as they are.
\<close>

theorem ring_buffer_bounds:
  "0 \<le> unat (count (rb_run ops rb_zero)) \<and>
   unat (count (rb_run ops rb_zero)) \<le> RP_LOG_RING_BUFFER_CNT \<and>
   unat (head (rb_run ops rb_zero)) < RP_LOG_RING_BUFFER_CNT \<and>
   unat (tail (rb_run ops rb_zero)) < RP_LOG_RING_BUFFER_CNT \<and>
   (unat (count (rb_run ops rb_zero)) = RP_LOG_RING_BUFFER_CNT \<longrightarrow>
      RB_Push (rb_run ops rb_zero) dat len = (- 1, rb_run ops rb_zero)) \<and>
   (unat (count (rb_run ops rb_zero)) = 0 \<longrightarrow>
      RB_Pop (rb_run ops rb_zero) buf n = (- 1, rb_run ops rb_zero, buf, n))"
proof -
  have "rb_indices (rb_run ops rb_zero)"
    by (rule rb_indices_run [OF rb_indices_zero])
  then show ?thesis
    by (simp add: rb_indices_def push_full pop_empty RB_IsFull_def RB_IsEmpty_def unat_eq_0)
qed

theorem ring_buffer_bounds_witness:
  "unat (count (rb_run (replicate 16 (Push ''ab'' 2)) rb_zero)) = RP_LOG_RING_BUFFER_CNT \<and>
   RB_Push (rb_run (replicate 16 (Push ''ab'' 2)) rb_zero) ''cd'' 2 =
     (- 1, rb_run (replicate 16 (Push ''ab'' 2)) rb_zero) \<and>
   unat (count (rb_run [] rb_zero)) = 0 \<and>
   RB_Pop (rb_run [] rb_zero) ''xy'' 7 = (- 1, rb_run [] rb_zero, ''xy'', 7)"
proof -
  have full: "unat (count (rb_run (replicate 16 (Push ''ab'' 2)) rb_zero)) = RP_LOG_RING_BUFFER_CNT"
    by code_simp
  have empty: "unat (count (rb_run [] rb_zero)) = 0"
    by code_simp
  show ?thesis
    using full empty
      ring_buffer_bounds [of "replicate 16 (Push ''ab'' 2)" "''cd''" 2 "''xy''" 7]
      ring_buffer_bounds [of "[]" "''cd''" 2 "''xy''" 7]
    by simp
qed

subsection \<open>The ring buffer as a queue\<close>

lemma rb_valid_zero: "rb_valid rb_zero"
  by (simp add: rb_valid_def rb_zero_def rb_indices_def entry_valid_def list_all_iff
      RP_LOG_RING_BUFFER_CNT_def RP_LOG_ENTRY_MAX_SIZE_def)

lemma contents_zero: "contents rb_zero = []"
  by (simp add: contents_def rb_zero_def)

lemma length_contents: "length (contents rb) = unat (count rb)"
  by (simp add: contents_def)

lemma rb_valid_entry:
  assumes "rb_valid rb" "i < RP_LOG_RING_BUFFER_CNT"
  shows "entry_valid (entries rb ! i)"
  using assms by (simp add: rb_valid_def list_all_length)

lemma length_record_of: "entry_valid e \<Longrightarrow> length (record_of e) = unat (length_f e)"
  by (simp add: entry_valid_def record_of_def)

lemma unat_clamped:
  "unat (if unat len > RP_LOG_ENTRY_MAX_SIZE
         then word_of_nat RP_LOG_ENTRY_MAX_SIZE else (len :: uint16_t)) =
     min (unat len) RP_LOG_ENTRY_MAX_SIZE"
  by (simp add: RP_LOG_ENTRY_MAX_SIZE_def min_def)

lemma push_entries:
  assumes "\<not> RB_IsFull rb"
  shows "length (entries (snd (RB_Push rb dat len))) = length (entries rb)"
    and "i \<noteq> unat (head rb) \<Longrightarrow> entries (snd (RB_Push rb dat len)) ! i = entries rb ! i"
    and "unat (head rb) < length (entries rb) \<Longrightarrow>
           data (entries (snd (RB_Push rb dat len)) ! unat (head rb)) =
             memcpy (data (entries rb ! unat (head rb))) dat (min (unat len) RP_LOG_ENTRY_MAX_SIZE)"
    and "unat (head rb) < length (entries rb) \<Longrightarrow>
           unat (length_f (entries (snd (RB_Push rb dat len)) ! unat (head rb))) =
             min (unat len) RP_LOG_ENTRY_MAX_SIZE"
  using assms by (simp_all add: RB_Push_def Let_def unat_clamped)

lemma mod16_succ:
  fixes h t c :: nat
  shows "h = (t + c) mod 16 \<Longrightarrow> (h + 1) mod 16 = (t + (c + 1)) mod 16"
  by (metis add.assoc mod_add_left_eq)

lemma mod16_neq:
  fixes i t c :: nat
  assumes "i < c" "c < 16"
  shows "(t + i) mod 16 \<noteq> (t + c) mod 16"
proof
  assume "(t + i) mod 16 = (t + c) mod 16"
  then have "16 dvd (t + c) - (t + i)"
    using assms by (metis mod_eq_dvd_iff_nat add_le_cancel_left less_imp_le_nat)
  then have "16 dvd c - i" by simp
  then have "16 \<le> c - i" using assms by (auto dest: dvd_imp_le)
  then show False using assms by simp
qed

lemma length_memcpy:
  "n \<le> length src \<Longrightarrow> n \<le> length dst \<Longrightarrow> length (memcpy dst src n) = length dst"
  by (simp add: memcpy_def)

lemma take_memcpy: "n \<le> length src \<Longrightarrow> take n (memcpy dst src n) = take n src"
  by (simp add: memcpy_def)

text \<open>A push into a valid ring buffer with room appends the record.\<close>

lemma push_valid:
  assumes v: "rb_valid rb" and nf: "\<not> RB_IsFull rb"
    and src: "min (unat len) RP_LOG_ENTRY_MAX_SIZE \<le> length dat"
  shows "rb_valid (snd (RB_Push rb dat len))"
proof -
  let ?rb = "snd (RB_Push rb dat len)"
  let ?h = "unat (head rb)"
  let ?n = "min (unat len) RP_LOG_ENTRY_MAX_SIZE"
  have h: "?h < RP_LOG_RING_BUFFER_CNT" and len: "length (entries rb) = RP_LOG_RING_BUFFER_CNT"
    and hd: "?h = (unat (tail rb) + unat (count rb)) mod RP_LOG_RING_BUFFER_CNT"
    and t: "unat (tail rb) < RP_LOG_RING_BUFFER_CNT"
    using v by (simp_all add: rb_valid_def rb_indices_def)
  have c: "unat (count rb) < RP_LOG_RING_BUFFER_CNT"
    using nf by (simp add: RB_IsFull_def)
  have old: "entry_valid (entries rb ! ?h)"
    by (rule rb_valid_entry [OF v h])
  have new: "entry_valid (entries ?rb ! ?h)"
    using old src push_entries(3,4) [OF nf, of dat len] h len
    by (simp add: entry_valid_def length_memcpy)
  have "entry_valid (entries ?rb ! i)" if "i < RP_LOG_RING_BUFFER_CNT" for i
  proof (cases "i = ?h")
    case True
    then show ?thesis using new by simp
  next
    case False
    then show ?thesis
      using rb_valid_entry [OF v that] push_entries(2) [OF nf] by simp
  qed
  then have all: "list_all entry_valid (entries ?rb)"
    using push_entries(1) [OF nf, of dat len] len by (simp add: list_all_length)
  have "(?h + 1) mod 16 = (unat (tail rb) + (unat (count rb) + 1)) mod 16"
    using hd unfolding RP_LOG_RING_BUFFER_CNT_def by (rule mod16_succ)
  then show ?thesis
    using all push_entries(1) [OF nf, of dat len] len push_fields [OF nf, of dat len] c t
    by (simp add: rb_valid_def rb_indices_def RP_LOG_RING_BUFFER_CNT_def)
qed

lemma push_contents:
  assumes v: "rb_valid rb" and nf: "\<not> RB_IsFull rb"
    and src: "min (unat len) RP_LOG_ENTRY_MAX_SIZE \<le> length dat"
  shows "contents (snd (RB_Push rb dat len)) =
           contents rb @ [take (min (unat len) RP_LOG_ENTRY_MAX_SIZE) dat]"
proof -
  let ?rb = "snd (RB_Push rb dat len)"
  let ?h = "unat (head rb)"
  let ?t = "unat (tail rb)"
  let ?c = "unat (count rb)"
  let ?n = "min (unat len) RP_LOG_ENTRY_MAX_SIZE"
  have h: "?h < RP_LOG_RING_BUFFER_CNT" and len: "length (entries rb) = RP_LOG_RING_BUFFER_CNT"
    and hd: "?h = (?t + ?c) mod RP_LOG_RING_BUFFER_CNT"
    using v by (simp_all add: rb_valid_def rb_indices_def)
  have c: "?c < RP_LOG_RING_BUFFER_CNT"
    using nf by (simp add: RB_IsFull_def)
  have new: "record_of (entries ?rb ! ?h) = take ?n dat"
    using push_entries(3,4) [OF nf, of dat len] h len src
    by (simp add: record_of_def take_memcpy)
  have old: "record_of (entries ?rb ! ((?t + i) mod RP_LOG_RING_BUFFER_CNT)) =
             record_of (entries rb ! ((?t + i) mod RP_LOG_RING_BUFFER_CNT))" if "i < ?c" for i
  proof -
    have "(?t + i) mod 16 \<noteq> (?t + ?c) mod 16"
      using that c unfolding RP_LOG_RING_BUFFER_CNT_def by (rule mod16_neq)
    then have "(?t + i) mod RP_LOG_RING_BUFFER_CNT \<noteq> ?h"
      using hd by (simp add: RP_LOG_RING_BUFFER_CNT_def)
    then show ?thesis
      using push_entries(2) [OF nf] by simp
  qed
  have "contents ?rb =
          map (\<lambda>i. record_of (entries ?rb ! ((?t + i) mod RP_LOG_RING_BUFFER_CNT))) [0 ..< ?c + 1]"
    using push_fields [OF nf, of dat len] by (simp add: contents_def)
  also have "\<dots> = map (\<lambda>i. record_of (entries ?rb ! ((?t + i) mod RP_LOG_RING_BUFFER_CNT))) [0 ..< ?c]
                 @ [record_of (entries ?rb ! ?h)]"
    using hd by simp
  also have "\<dots> = contents rb @ [take ?n dat]"
    using old new by (simp add: contents_def)
  finally show ?thesis .
qed

lemma pop_out:
  assumes "\<not> RB_IsEmpty rb"
  shows "snd (snd (snd (RB_Pop rb dat len))) = length_f (entries rb ! unat (tail rb))"
    and "fst (snd (snd (RB_Pop rb dat len))) =
           memcpy dat (data (entries rb ! unat (tail rb)))
             (unat (length_f (entries rb ! unat (tail rb))))"
  using assms by (simp_all add: RB_Pop_def Let_def)

lemma nonempty_iff: "\<not> RB_IsEmpty rb \<longleftrightarrow> 0 < unat (count rb)"
  by (simp add: RB_IsEmpty_def unat_gt_0)

lemma mod16_pred:
  fixes t c :: nat
  assumes "0 < c"
  shows "(t + c) mod 16 = ((t + 1) mod 16 + (c - 1)) mod 16"
proof -
  have "((t + 1) mod 16 + (c - 1)) mod 16 = (t + 1 + (c - 1)) mod 16"
    by (rule mod_add_left_eq)
  also have "t + 1 + (c - 1) = t + c"
    using assms by simp
  finally show ?thesis by simp
qed

lemma pop_valid:
  assumes v: "rb_valid rb" and ne: "\<not> RB_IsEmpty rb"
  shows "rb_valid (fst (snd (RB_Pop rb dat len)))"
proof -
  let ?t = "unat (tail rb)"
  let ?c = "unat (count rb)"
  have hd: "unat (head rb) = (?t + ?c) mod 16" and c: "0 < ?c"
    using v ne by (simp_all add: rb_valid_def RP_LOG_RING_BUFFER_CNT_def nonempty_iff)
  have "(?t + ?c) mod 16 = ((?t + 1) mod 16 + (?c - 1)) mod 16"
    by (rule mod16_pred [OF c])
  then have "unat (head (fst (snd (RB_Pop rb dat len)))) =
      (unat (tail (fst (snd (RB_Pop rb dat len)))) + unat (count (fst (snd (RB_Pop rb dat len)))))
        mod RP_LOG_RING_BUFFER_CNT"
    using hd pop_fields [OF ne, of dat len] by (simp add: RP_LOG_RING_BUFFER_CNT_def)
  moreover have "rb_indices (fst (snd (RB_Pop rb dat len)))"
    using v by (simp add: rb_valid_def rb_indices_pop)
  ultimately show ?thesis
    using v pop_fields(5) [OF ne, of dat len] by (simp add: rb_valid_def)
qed

lemma pop_contents:
  assumes v: "rb_valid rb" and ne: "\<not> RB_IsEmpty rb"
  shows "contents rb =
           record_of (entries rb ! unat (tail rb)) # contents (fst (snd (RB_Pop rb dat len)))"
proof -
  let ?rb = "fst (snd (RB_Pop rb dat len))"
  let ?t = "unat (tail rb)"
  let ?c = "unat (count rb)"
  let ?f = "\<lambda>i. record_of (entries rb ! ((?t + i) mod RP_LOG_RING_BUFFER_CNT))"
  have c: "0 < ?c" and t: "?t < RP_LOG_RING_BUFFER_CNT"
    using v ne by (simp_all add: rb_valid_def rb_indices_def nonempty_iff)
  have "[0 ..< ?c] = 0 # map Suc [0 ..< ?c - 1]"
    using c by (metis Suc_pred' map_Suc_upt upt_conv_Cons)
  then have "contents rb = ?f 0 # map (\<lambda>i. ?f (Suc i)) [0 ..< ?c - 1]"
    by (simp add: contents_def comp_def)
  moreover have "?f 0 = record_of (entries rb ! ?t)"
    using t by simp
  moreover have "contents ?rb = map (\<lambda>i. ?f (Suc i)) [0 ..< ?c - 1]"
    using pop_fields [OF ne, of dat len]
    by (simp add: contents_def mod_add_left_eq)
  ultimately show ?thesis by simp
qed

lemma pop_record:
  assumes v: "rb_valid rb" and ne: "\<not> RB_IsEmpty rb"
  shows "take (unat (snd (snd (snd (RB_Pop rb dat len))))) (fst (snd (snd (RB_Pop rb dat len)))) =
           record_of (entries rb ! unat (tail rb))"
    and "unat (snd (snd (snd (RB_Pop rb dat len)))) =
           length (record_of (entries rb ! unat (tail rb)))"
proof -
  have "entry_valid (entries rb ! unat (tail rb))"
    using v by (simp add: rb_valid_entry rb_valid_def rb_indices_def)
  then show "take (unat (snd (snd (snd (RB_Pop rb dat len))))) (fst (snd (snd (RB_Pop rb dat len)))) =
           record_of (entries rb ! unat (tail rb))"
    and "unat (snd (snd (snd (RB_Pop rb dat len)))) =
           length (record_of (entries rb ! unat (tail rb)))"
    using pop_out [OF ne, of dat len]
    by (simp_all add: record_of_def take_memcpy entry_valid_def)
qed

lemma pop_head:
  assumes v: "rb_valid rb" and c: "contents rb = x # xs"
  shows "fst (RB_Pop rb dat len) = 0"
    and "take (unat (snd (snd (snd (RB_Pop rb dat len))))) (fst (snd (snd (RB_Pop rb dat len)))) = x"
    and "unat (snd (snd (snd (RB_Pop rb dat len)))) = length x"
    and "contents (fst (snd (RB_Pop rb dat len))) = xs"
    and "rb_valid (fst (snd (RB_Pop rb dat len)))"
proof -
  have ne: "\<not> RB_IsEmpty rb"
    using length_contents [of rb] c by (simp add: nonempty_iff)
  have x: "record_of (entries rb ! unat (tail rb)) = x"
    and xs: "contents (fst (snd (RB_Pop rb dat len))) = xs"
    using pop_contents [OF v ne, of dat len] c by simp_all
  show "fst (RB_Pop rb dat len) = 0"
    by (rule pop_fields(1) [OF ne])
  show "take (unat (snd (snd (snd (RB_Pop rb dat len))))) (fst (snd (snd (RB_Pop rb dat len)))) = x"
    using pop_record(1) [OF v ne, of dat len] x by simp
  show "unat (snd (snd (snd (RB_Pop rb dat len)))) = length x"
    using pop_record(2) [OF v ne, of dat len] x by simp
  show "contents (fst (snd (RB_Pop rb dat len))) = xs"
    by (rule xs)
  show "rb_valid (fst (snd (RB_Pop rb dat len)))"
    by (rule pop_valid [OF v ne])
qed

lemma pops_drop:
  assumes "rb_valid rb" "length outs \<le> length (contents rb)"
  shows "rb_valid (rb_run (map (\<lambda>(d, l). Pop d l) outs) rb) \<and>
         contents (rb_run (map (\<lambda>(d, l). Pop d l) outs) rb) = drop (length outs) (contents rb)"
  using assms
proof (induction outs arbitrary: rb)
  case Nil
  then show ?case by (simp add: rb_run_def)
next
  case (Cons o1 outs)
  obtain d l where o1: "o1 = (d, l)" by (cases o1)
  obtain x xs where c: "contents rb = x # xs"
    using Cons.prems(2) by (cases "contents rb") simp_all
  let ?rb = "fst (snd (RB_Pop rb d l))"
  have v': "rb_valid ?rb" and c': "contents ?rb = xs"
    using pop_head(4,5) [OF Cons.prems(1) c] by simp_all
  have "length outs \<le> length (contents ?rb)"
    using Cons.prems(2) c c' by simp
  from Cons.IH [OF v' this] show ?case
    using c c' o1 by (simp add: rb_run_def)
qed

lemma push3_contents:
  assumes v: "rb_valid rb"
    and room: "unat (count rb) + 3 \<le> RP_LOG_RING_BUFFER_CNT"
    and a: "min (unat la) RP_LOG_ENTRY_MAX_SIZE \<le> length a"
    and b: "min (unat lb) RP_LOG_ENTRY_MAX_SIZE \<le> length b"
    and c: "min (unat lc) RP_LOG_ENTRY_MAX_SIZE \<le> length c"
  shows "fst (RB_Push rb a la) = 0"
    and "fst (RB_Push (snd (RB_Push rb a la)) b lb) = 0"
    and "fst (RB_Push (snd (RB_Push (snd (RB_Push rb a la)) b lb)) c lc) = 0"
    and "rb_valid (snd (RB_Push (snd (RB_Push (snd (RB_Push rb a la)) b lb)) c lc))"
    and "contents (snd (RB_Push (snd (RB_Push (snd (RB_Push rb a la)) b lb)) c lc)) =
           contents rb @ [take (min (unat la) RP_LOG_ENTRY_MAX_SIZE) a,
                          take (min (unat lb) RP_LOG_ENTRY_MAX_SIZE) b,
                          take (min (unat lc) RP_LOG_ENTRY_MAX_SIZE) c]"
proof -
  let ?r1 = "snd (RB_Push rb a la)"
  let ?r2 = "snd (RB_Push ?r1 b lb)"
  let ?r3 = "snd (RB_Push ?r2 c lc)"
  have n0: "\<not> RB_IsFull rb"
    using room by (simp add: RB_IsFull_def)
  have v1: "rb_valid ?r1" by (rule push_valid [OF v n0 a])
  have c1: "unat (count ?r1) = unat (count rb) + 1" by (rule push_fields(2) [OF n0])
  have n1: "\<not> RB_IsFull ?r1"
    using room c1 by (simp add: RB_IsFull_def)
  have v2: "rb_valid ?r2" by (rule push_valid [OF v1 n1 b])
  have c2: "unat (count ?r2) = unat (count ?r1) + 1" by (rule push_fields(2) [OF n1])
  have n2: "\<not> RB_IsFull ?r2"
    using room c1 c2 by (simp add: RB_IsFull_def)
  show "fst (RB_Push rb a la) = 0" by (rule push_fields(1) [OF n0])
  show "fst (RB_Push ?r1 b lb) = 0" by (rule push_fields(1) [OF n1])
  show "fst (RB_Push ?r2 c lc) = 0" by (rule push_fields(1) [OF n2])
  show "rb_valid ?r3" by (rule push_valid [OF v2 n2 c])
  show "contents ?r3 =
           contents rb @ [take (min (unat la) RP_LOG_ENTRY_MAX_SIZE) a,
                          take (min (unat lb) RP_LOG_ENTRY_MAX_SIZE) b,
                          take (min (unat lc) RP_LOG_ENTRY_MAX_SIZE) c]"
    by (simp add: push_contents [OF v2 n2 c] push_contents [OF v1 n1 b] push_contents [OF v n0 a])
qed

text \<open>
  Claim C2. Three records A, B and C are pushed in that order into a valid ring buffer
  with at least three free slots, with no pop in between. Once the records that were in
  the buffer before have been popped (none if it was empty), three successive \<open>RB_Pop\<close>
  calls return 0 and hand out A, then B, then C, each with its length. A record is the
  first \<open>length\<close> bytes of the data passed to \<open>RB_Push\<close>, cut at \<open>RP_LOG_ENTRY_MAX_SIZE\<close>.
\<close>

theorem fifo_order:
  fixes rb :: RP_LogRingBuffer_t
    and a b c dx dy dz :: string
    and la lb lc lx ly lz :: uint16_t
    and olds :: "(string \<times> uint16_t) list"
  assumes v: "rb_valid rb"
    and room: "unat (count rb) + 3 \<le> RP_LOG_RING_BUFFER_CNT"
    and a: "min (unat la) RP_LOG_ENTRY_MAX_SIZE \<le> length a"
    and b: "min (unat lb) RP_LOG_ENTRY_MAX_SIZE \<le> length b"
    and c: "min (unat lc) RP_LOG_ENTRY_MAX_SIZE \<le> length c"
    and olds: "length olds = unat (count rb)"
  defines "rb3 \<equiv> snd (RB_Push (snd (RB_Push (snd (RB_Push rb a la)) b lb)) c lc)"
  defines "rb4 \<equiv> rb_run (map (\<lambda>(d, l). Pop d l) olds) rb3"
  defines "p1 \<equiv> RB_Pop rb4 dx lx"
  defines "p2 \<equiv> RB_Pop (fst (snd p1)) dy ly"
  defines "p3 \<equiv> RB_Pop (fst (snd p2)) dz lz"
  shows "fst p1 = 0 \<and> pop_record_out p1 = take (min (unat la) RP_LOG_ENTRY_MAX_SIZE) a \<and>
         unat (snd (snd (snd p1))) = min (unat la) RP_LOG_ENTRY_MAX_SIZE \<and>
         fst p2 = 0 \<and> pop_record_out p2 = take (min (unat lb) RP_LOG_ENTRY_MAX_SIZE) b \<and>
         unat (snd (snd (snd p2))) = min (unat lb) RP_LOG_ENTRY_MAX_SIZE \<and>
         fst p3 = 0 \<and> pop_record_out p3 = take (min (unat lc) RP_LOG_ENTRY_MAX_SIZE) c \<and>
         unat (snd (snd (snd p3))) = min (unat lc) RP_LOG_ENTRY_MAX_SIZE"
proof -
  let ?A = "take (min (unat la) RP_LOG_ENTRY_MAX_SIZE) a"
  let ?B = "take (min (unat lb) RP_LOG_ENTRY_MAX_SIZE) b"
  let ?C = "take (min (unat lc) RP_LOG_ENTRY_MAX_SIZE) c"
  have v3: "rb_valid rb3" and c3: "contents rb3 = contents rb @ [?A, ?B, ?C]"
    unfolding rb3_def by (rule push3_contents [OF v room a b c])+
  have "length olds \<le> length (contents rb3)"
    using olds c3 by (simp add: length_contents)
  from pops_drop [OF v3 this]
  have v4: "rb_valid rb4" and c4: "contents rb4 = [?A, ?B, ?C]"
    using c3 olds by (simp_all add: rb4_def length_contents)
  note h1 = pop_head [OF v4 c4, of dx lx, folded p1_def]
  note h2 = pop_head [OF h1(5) h1(4), of dy ly, folded p2_def]
  note h3 = pop_head [OF h2(5) h2(4), of dz lz, folded p3_def]
  show ?thesis
    using h1(1,2,3) h2(1,2,3) h3(1,2,3) a b c by (simp add: pop_record_out_def)
qed

theorem fifo_order_witness:
  "rb_valid rb_zero \<and> unat (count rb_zero) + 3 \<le> RP_LOG_RING_BUFFER_CNT \<and>
   length ([] :: (string \<times> uint16_t) list) = unat (count rb_zero) \<and>
   pop_record_out
     (RB_Pop (snd (RB_Push (snd (RB_Push (snd (RB_Push rb_zero ''A1'' 2)) ''B22'' 3)) ''C333'' 4))
        '''' 0) = ''A1'' \<and>
   pop_record_out
     (RB_Pop (fst (snd (RB_Pop
        (snd (RB_Push (snd (RB_Push (snd (RB_Push rb_zero ''A1'' 2)) ''B22'' 3)) ''C333'' 4))
        '''' 0))) '''' 0) = ''B22'' \<and>
   pop_record_out
     (RB_Pop (fst (snd (RB_Pop (fst (snd (RB_Pop
        (snd (RB_Push (snd (RB_Push (snd (RB_Push rb_zero ''A1'' 2)) ''B22'' 3)) ''C333'' 4))
        '''' 0))) '''' 0))) '''' 0) = ''C333''"
proof -
  have v: "rb_valid rb_zero" by (rule rb_valid_zero)
  have room: "unat (count rb_zero) + 3 \<le> RP_LOG_RING_BUFFER_CNT"
    by (simp add: rb_zero_def RP_LOG_RING_BUFFER_CNT_def)
  have a: "min (unat (2 :: uint16_t)) RP_LOG_ENTRY_MAX_SIZE \<le> length ''A1''"
    and b: "min (unat (3 :: uint16_t)) RP_LOG_ENTRY_MAX_SIZE \<le> length ''B22''"
    and c: "min (unat (4 :: uint16_t)) RP_LOG_ENTRY_MAX_SIZE \<le> length ''C333''"
    by (simp_all add: RP_LOG_ENTRY_MAX_SIZE_def)
  have olds: "length ([] :: (string \<times> uint16_t) list) = unat (count rb_zero)"
    by (simp add: rb_zero_def)
  show ?thesis
    using v room olds
      fifo_order [OF v room a b c olds, where dx = "''''" and lx = 0
        and dy = "''''" and ly = 0 and dz = "''''" and lz = 0]
    by (simp add: rb_run_def RP_LOG_ENTRY_MAX_SIZE_def)
qed

subsection \<open>The text that a write stores\<close>

lemma length_local_array: "length (local_array init n) = n"
  by (simp add: local_array_def)

lemma holds_text_start: "length buf = RP_LOG_ENTRY_MAX_SIZE \<Longrightarrow> holds_text buf []"
  by (simp add: holds_text_def)

lemma snprintf_at_holds:
  assumes h: "holds_text buf S" and len: "length S \<le> RP_LOG_ENTRY_MAX_SIZE"
  shows "\<exists>buf'. snprintf_at buf (length S) s = Inr (buf', length s) \<and> holds_text buf' (S @ s)"
proof (cases "length S = 256")
  case True
  then have "snprintf_at buf (length S) s = Inr (buf, length s)"
    by (simp add: snprintf_at_def snprintf_def RP_LOG_ENTRY_MAX_SIZE_def)
  moreover have "holds_text buf (S @ s)"
    using h True by (simp add: holds_text_def RP_LOG_ENTRY_MAX_SIZE_def)
  ultimately show ?thesis by simp
next
  case False
  then have lt: "length S < 256"
    using len by (simp add: RP_LOG_ENTRY_MAX_SIZE_def)
  let ?m = "min (255 - length S) (length s)"
  let ?w = "take (255 - length S) s @ [NUL]"
  let ?buf = "store_at buf (length S) ?w"
  have "min 255 (length S) = length S"
    using lt by simp
  then have lb: "length buf = 256" and pre: "take (length S) buf = S"
    using h lt by (simp_all add: holds_text_def RP_LOG_ENTRY_MAX_SIZE_def)
  have call: "snprintf_at buf (length S) s = Inr (?buf, length s)"
    using lt by (simp add: snprintf_at_def snprintf_def RP_LOG_ENTRY_MAX_SIZE_def)
  have eq: "?buf = S @ take (255 - length S) s @ NUL # drop (length S + ?m + 1) buf"
    by (simp add: store_at_def pre min.commute)
  have l: "length ?buf = 256"
    using lt lb unfolding eq by (simp add: min_def)
  have "take (min 255 (length S + length s)) ?buf = S @ take ?m s"
    using lt unfolding eq by (auto simp: min_def)
  moreover have "take 255 (S @ s) = S @ take ?m s"
    using lt by (auto simp: min_def)
  ultimately have "holds_text ?buf (S @ s)"
    using l by (simp add: holds_text_def RP_LOG_ENTRY_MAX_SIZE_def)
  then show ?thesis using call by simp
qed

lemma take_line_break:
  assumes "i + 1 < length xs"
  shows "take (i + 2) (xs[i := a, i + 1 := b]) = take i xs @ [a, b]"
proof -
  have "take (Suc (Suc i)) (xs[i := a, Suc i := b]) =
          take (Suc i) (xs[i := a, Suc i := b]) @ [b]"
    using assms by (simp add: take_Suc_conv_app_nth)
  also have "take (Suc i) (xs[i := a, Suc i := b]) = take i xs @ [a]"
    using assms by (simp add: take_Suc_conv_app_nth)
  finally show ?thesis by simp
qed

lemma line_break_holds:
  assumes h: "holds_text buf F"
  shows "take (length (stored_text F))
           (buf[length (stored_text F) - 2 := CR, length (stored_text F) - 2 + 1 := LF]) =
         stored_text F"
proof (cases "length F \<ge> 254")
  case True
  have lb: "length buf = 256"
    and pre: "take (min 255 (length F)) buf = take 255 F"
    using h by (simp_all add: holds_text_def RP_LOG_ENTRY_MAX_SIZE_def)
  have "min 253 (min 255 (length F)) = 253"
    using True by simp
  then have "take 253 buf = take 253 (take (min 255 (length F)) buf)"
    by (simp only: take_take)
  also have "\<dots> = take 253 F"
    unfolding pre by simp
  finally have t: "take 253 buf = take 253 F" .
  have n: "length (stored_text F) = 253 + 2"
    using True by (simp add: stored_text_def RP_LOG_ENTRY_MAX_SIZE_def)
  have "take (253 + 2) (buf[253 := CR, 253 + 1 := LF]) = take 253 buf @ [CR, LF]"
    by (rule take_line_break) (simp add: lb)
  then show ?thesis
    using True t unfolding n by (simp add: stored_text_def RP_LOG_ENTRY_MAX_SIZE_def)
next
  case False
  have "min 255 (length F) = length F"
    using False by simp
  then have lb: "length buf = 256" and pre: "take (length F) buf = F"
    using h False by (simp_all add: holds_text_def RP_LOG_ENTRY_MAX_SIZE_def)
  have n: "length (stored_text F) = length F + 2"
    using False by (simp add: stored_text_def RP_LOG_ENTRY_MAX_SIZE_def)
  have "take (length F + 2) (buf[length F := CR, length F + 1 := LF]) = take (length F) buf @ [CR, LF]"
    by (rule take_line_break) (use False lb in simp)
  then show ?thesis
    using False pre unfolding n by (simp add: stored_text_def RP_LOG_ENTRY_MAX_SIZE_def)
qed

lemma length_stored_text:
  "length (stored_text F) = (if length F \<ge> 254 then 255 else length F + 2)"
  by (simp add: stored_text_def RP_LOG_ENTRY_MAX_SIZE_def)

lemma format_entry_text:
  fixes cfg level filename line message tick
  defines "ts \<equiv> (if use_timestamp cfg \<noteq> 0 \<and> USE_HAL_DRIVER then fmt_timestamp tick else [])"
  defines "loc \<equiv> fmt_location (g_level_names level) filename line"
  assumes b0: "length buffer0 = RP_LOG_ENTRY_MAX_SIZE"
    and fits: "length (ts @ loc) \<le> RP_LOG_ENTRY_MAX_SIZE"
  shows "\<exists>buf. format_entry cfg level filename line message tick buffer0 =
                 Inr (buf, length (stored_text (ts @ loc @ message))) \<and>
               length buf = RP_LOG_ENTRY_MAX_SIZE \<and>
               take (length (stored_text (ts @ loc @ message))) buf =
                 stored_text (ts @ loc @ message)"
proof -
  let ?F = "ts @ loc @ message"
  have h0: "holds_text buffer0 []"
    by (rule holds_text_start [OF b0])
  have "\<exists>b1. (if use_timestamp cfg \<noteq> 0 \<and> USE_HAL_DRIVER
              then snprintf_at buffer0 0 (fmt_timestamp tick)
              else Inr (buffer0, 0)) = Inr (b1, length ts) \<and> holds_text b1 ts"
  proof (cases "use_timestamp cfg \<noteq> 0 \<and> USE_HAL_DRIVER")
    case True
    show ?thesis
      unfolding ts_def if_P [OF True]
      using snprintf_at_holds [OF h0, of "fmt_timestamp tick"] by simp
  next
    case False
    show ?thesis
      unfolding ts_def if_not_P [OF False] using h0 by simp
  qed
  then obtain b1 where s1: "(if use_timestamp cfg \<noteq> 0 \<and> USE_HAL_DRIVER
              then snprintf_at buffer0 0 (fmt_timestamp tick)
              else Inr (buffer0, 0)) = Inr (b1, length ts)" and h1: "holds_text b1 ts"
    by blast
  have l1: "length ts \<le> RP_LOG_ENTRY_MAX_SIZE"
    using fits by simp
  obtain b2 where s2: "snprintf_at b1 (length ts) loc = Inr (b2, length loc)"
    and h2: "holds_text b2 (ts @ loc)"
    using snprintf_at_holds [OF h1 l1, of loc] by blast
  obtain b3 where s3: "snprintf_at b2 (length ts + length loc) message = Inr (b3, length message)"
    and h3: "holds_text b3 ((ts @ loc) @ message)"
    using snprintf_at_holds [OF h2 fits, of message] by auto
  let ?n = "length (stored_text ?F)"
  let ?buf = "b3[?n - 2 := CR, ?n - 2 + 1 := LF]"
  have n: "(if length ts + length loc + length message \<ge> RP_LOG_ENTRY_MAX_SIZE - 2
            then RP_LOG_ENTRY_MAX_SIZE - 3 else length ts + length loc + length message) = ?n - 2"
    by (simp add: length_stored_text RP_LOG_ENTRY_MAX_SIZE_def)
  have n2: "?n - 2 + 2 = ?n"
    by (simp add: length_stored_text)
  have "format_entry cfg level filename line message tick buffer0 = Inr (?buf, ?n - 2 + 2)"
    using s2 s3 unfolding format_entry_def s1 loc_def [symmetric]
    by (simp add: Let_def n)
  moreover have "length ?buf = RP_LOG_ENTRY_MAX_SIZE"
    using h3 by (simp add: holds_text_def)
  moreover have "take ?n ?buf = stored_text ?F"
    using line_break_holds [of b3 ?F] h3 by simp
  ultimately show ?thesis
    unfolding n2 by blast
qed

lemma write_stores:
  assumes acc: "\<not> level_rejected (output_range (config_param lg)) level"
    and fits: "length (rendered_prefix (config_param lg) level file line tick) \<le> RP_LOG_ENTRY_MAX_SIZE"
    and v: "rb_valid (ring_buffer lg)"
    and room: "\<not> RB_IsFull (ring_buffer lg)"
  shows "\<exists>lg'. RP_Log_Write (Ptr lg) level file line message tick init = Inr (0, Ptr lg') \<and>
           config_param lg' = config_param lg \<and>
           rb_valid (ring_buffer lg') \<and>
           contents (ring_buffer lg') =
             contents (ring_buffer lg) @
               [stored_text (rendered_prefix (config_param lg) level file line tick @ message)] \<and>
           unat (count (ring_buffer lg')) = unat (count (ring_buffer lg)) + 1"
proof -
  let ?P = "rendered_prefix (config_param lg) level file line tick"
  let ?T = "stored_text (?P @ message)"
  obtain buf where f: "format_entry (config_param lg) level (extract_filename file) line
                         message tick (local_array init RP_LOG_ENTRY_MAX_SIZE) = Inr (buf, length ?T)"
    and lb: "length buf = RP_LOG_ENTRY_MAX_SIZE" and t: "take (length ?T) buf = ?T"
    using format_entry_text [OF length_local_array [of init RP_LOG_ENTRY_MAX_SIZE], of "config_param lg" tick level "extract_filename file" line message]
      fits
    by (auto simp: rendered_prefix_def)
  have le: "length ?T \<le> 255"
    by (simp add: length_stored_text)
  then have u: "unat (word_of_nat (length ?T) :: uint16_t) = length ?T"
    by (simp add: unat_of_nat)
  have m: "min (unat (word_of_nat (length ?T) :: uint16_t)) RP_LOG_ENTRY_MAX_SIZE = length ?T"
    using le unfolding u by (simp add: RP_LOG_ENTRY_MAX_SIZE_def)
  have src: "min (unat (word_of_nat (length ?T) :: uint16_t)) RP_LOG_ENTRY_MAX_SIZE \<le> length buf"
    using le unfolding m lb by (simp add: RP_LOG_ENTRY_MAX_SIZE_def)
  let ?push = "RB_Push (ring_buffer lg) buf (word_of_nat (length ?T))"
  let ?lg = "lg\<lparr>ring_buffer := snd ?push\<rparr>"
  have r: "fst ?push = 0" by (rule push_fields(1) [OF room])
  have "RP_Log_Write (Ptr lg) level file line message tick init = Inr (0, Ptr ?lg)"
    using acc r by (simp add: RP_Log_Write_def f split_beta)
  moreover have "rb_valid (ring_buffer ?lg)"
    using push_valid [OF v room src] by simp
  moreover have "contents (ring_buffer ?lg) = contents (ring_buffer lg) @ [?T]"
    using push_contents [OF v room src] unfolding m t by simp
  moreover have "unat (count (ring_buffer ?lg)) = unat (count (ring_buffer lg)) + 1"
    using push_fields(2) [OF room, of buf "word_of_nat (length ?T)"] by simp
  ultimately show ?thesis by (intro exI [of _ ?lg]) simp
qed

lemma write_rejected:
  "level_rejected (output_range (config_param lg)) level \<Longrightarrow>
     RP_Log_Write (Ptr lg) level file line message tick init = Inr (- 1, Ptr lg)"
  by (simp add: RP_Log_Write_def)

lemma snprintf_at_overrun:
  "RP_LOG_ENTRY_MAX_SIZE < len \<Longrightarrow> snprintf_at buf len s = Inl BufferOverrun"
  by (simp add: snprintf_at_def)

lemma snprintf_at_returns:
  "len \<le> RP_LOG_ENTRY_MAX_SIZE \<Longrightarrow> \<exists>buf'. snprintf_at buf len s = Inr (buf', length s)"
  by (simp add: snprintf_at_def snprintf_def)

lemma timestamp_stage:
  "\<exists>b1. (if c then snprintf_at buffer0 0 t else Inr (buffer0, 0)) =
          Inr (b1, length (if c then t else []))"
proof (cases c)
  case True
  then show ?thesis
    using snprintf_at_returns [of 0 buffer0 t] by simp
next
  case False
  then show ?thesis by simp
qed

lemma format_entry_overrun:
  assumes "RP_LOG_ENTRY_MAX_SIZE <
             length ((if use_timestamp cfg \<noteq> 0 \<and> USE_HAL_DRIVER then fmt_timestamp tick else []) @
                     fmt_location (g_level_names level) filename line)"
  shows "format_entry cfg level filename line message tick buffer0 = Inl BufferOverrun"
proof -
  let ?ts = "if use_timestamp cfg \<noteq> 0 \<and> USE_HAL_DRIVER then fmt_timestamp tick else []"
  let ?loc = "fmt_location (g_level_names level) filename line"
  obtain b1 where s1: "(if use_timestamp cfg \<noteq> 0 \<and> USE_HAL_DRIVER
              then snprintf_at buffer0 0 (fmt_timestamp tick)
              else Inr (buffer0, 0)) = Inr (b1, length ?ts)"
    using timestamp_stage by blast
  show ?thesis
  proof (cases "length ?ts \<le> RP_LOG_ENTRY_MAX_SIZE")
    case True
    obtain b2 where s2: "snprintf_at b1 (length ?ts) ?loc = Inr (b2, length ?loc)"
      using snprintf_at_returns [OF True] by blast
    have "snprintf_at b2 (length ?ts + length ?loc) message = Inl BufferOverrun"
      using assms by (intro snprintf_at_overrun) simp
    then show ?thesis
      unfolding format_entry_def s1 by (simp add: s2)
  next
    case False
    then have "snprintf_at b1 (length ?ts) ?loc = Inl BufferOverrun"
      by (intro snprintf_at_overrun) simp
    then show ?thesis
      unfolding format_entry_def s1 by simp
  qed
qed

lemma write_overrun:
  assumes "\<not> level_rejected (output_range (config_param lg)) level"
    and "RP_LOG_ENTRY_MAX_SIZE < length (rendered_prefix (config_param lg) level file line tick)"
  shows "RP_Log_Write (Ptr lg) level file line message tick init = Inl BufferOverrun"
  using assms format_entry_overrun [of "config_param lg" tick level "extract_filename file" line]
  by (simp add: RP_Log_Write_def rendered_prefix_def)


lemma write_full:
  assumes acc: "\<not> level_rejected (output_range (config_param lg)) level"
    and fits: "length (rendered_prefix (config_param lg) level file line tick) \<le> RP_LOG_ENTRY_MAX_SIZE"
    and full: "RB_IsFull (ring_buffer lg)"
  shows "RP_Log_Write (Ptr lg) level file line message tick init = Inr (- 1, Ptr lg)"
proof -
  obtain buf n where f: "format_entry (config_param lg) level (extract_filename file) line
                         message tick (local_array init RP_LOG_ENTRY_MAX_SIZE) = Inr (buf, n)"
    using format_entry_text [OF length_local_array [of init RP_LOG_ENTRY_MAX_SIZE], of "config_param lg" tick level "extract_filename file" line message]
      fits
    by (auto simp: rendered_prefix_def)
  show ?thesis
    using acc by (simp add: RP_Log_Write_def f push_full [OF full])
qed

subsection \<open>The level filter\<close>



lemma rb_valid_g_rp_log: "rb_valid (ring_buffer g_rp_log)"
  by (simp add: g_rp_log_def rb_valid_zero)

lemma room_zero: "\<not> RB_IsFull rb_zero"
  by (simp add: RB_IsFull_def rb_zero_def RP_LOG_RING_BUFFER_CNT_def)


lemma stored_text_long:
  assumes "RP_LOG_ENTRY_MAX_SIZE - 2 \<le> length F"
  shows "length (stored_text F) = RP_LOG_ENTRY_MAX_SIZE - 1"
    and "drop (length (stored_text F) - 2) (stored_text F) = [CR, LF]"
    and "take (length (stored_text F) - 2) (stored_text F) = take (RP_LOG_ENTRY_MAX_SIZE - 3) F"
  using assms by (simp_all add: stored_text_def RP_LOG_ENTRY_MAX_SIZE_def)

lemma stored_text_short:
  assumes "length F \<le> RP_LOG_ENTRY_MAX_SIZE - 3"
  shows "stored_text F = F @ [CR, LF]"
  using assms by (simp add: stored_text_def RP_LOG_ENTRY_MAX_SIZE_def)

subsection \<open>Truncation\<close>

text \<open>
  Claim C3, as the code has it. Take a write that passes the filter, finds room in a valid
  ring buffer, and prints a prefix that fits into the local array. If prefix and message
  together have \<open>RP_LOG_ENTRY_MAX_SIZE - 2\<close> characters or more, which covers every text
  that reaches or exceeds the record capacity, the write returns 0 and appends a record of
  exactly \<open>RP_LOG_ENTRY_MAX_SIZE - 1\<close> bytes, one less than the capacity. Its last two bytes
  are \<^verbatim>\<open>'\r'\<close> and \<^verbatim>\<open>'\n'\<close>, and the bytes before them are the first
  \<open>RP_LOG_ENTRY_MAX_SIZE - 3\<close> characters of prefix and message.
\<close>

theorem truncated_record:
  assumes acc: "\<not> level_rejected (output_range (config_param lg)) level"
    and v: "rb_valid (ring_buffer lg)"
    and room: "\<not> RB_IsFull (ring_buffer lg)"
    and fits: "length (rendered_prefix (config_param lg) level file line tick)
                 \<le> RP_LOG_ENTRY_MAX_SIZE"
    and long: "RP_LOG_ENTRY_MAX_SIZE - 2
                 \<le> length (rendered_prefix (config_param lg) level file line tick @ message)"
  shows "\<exists>lg' r. RP_Log_Write (Ptr lg) level file line message tick init = Inr (0, Ptr lg') \<and>
           contents (ring_buffer lg') = contents (ring_buffer lg) @ [r] \<and>
           length r = RP_LOG_ENTRY_MAX_SIZE - 1 \<and>
           drop (length r - 2) r = [CR, LF] \<and>
           take (length r - 2) r =
             take (RP_LOG_ENTRY_MAX_SIZE - 3)
               (rendered_prefix (config_param lg) level file line tick @ message)"
proof -
  let ?F = "rendered_prefix (config_param lg) level file line tick @ message"
  obtain lg' where w: "RP_Log_Write (Ptr lg) level file line message tick init = Inr (0, Ptr lg')"
    and c: "contents (ring_buffer lg') = contents (ring_buffer lg) @ [stored_text ?F]"
    using write_stores [OF acc fits v room, where message = message and init = init] by blast
  show ?thesis
    using w c stored_text_long [OF long] by blast
qed

theorem truncated_record_witness:
  "\<not> level_rejected (output_range (config_param g_rp_log)) RP_LOG_LEVEL_INFO \<and>
   rb_valid (ring_buffer g_rp_log) \<and>
   \<not> RB_IsFull (ring_buffer g_rp_log) \<and>
   length (rendered_prefix (config_param g_rp_log) RP_LOG_LEVEL_INFO ''test.c'' 1 1234)
     \<le> RP_LOG_ENTRY_MAX_SIZE \<and>
   RP_LOG_ENTRY_MAX_SIZE - 2
     \<le> length (rendered_prefix (config_param g_rp_log) RP_LOG_LEVEL_INFO ''test.c'' 1 1234
                 @ long_message) \<and>
   (\<exists>lg' r. RP_Log_Write (Ptr g_rp_log) RP_LOG_LEVEL_INFO ''test.c'' 1 long_message 1234
               zero_bytes = Inr (0, Ptr lg') \<and>
           contents (ring_buffer lg') = contents (ring_buffer g_rp_log) @ [r] \<and>
           length r = RP_LOG_ENTRY_MAX_SIZE - 1 \<and>
           drop (length r - 2) r = [CR, LF] \<and>
           take (length r - 2) r =
             take (RP_LOG_ENTRY_MAX_SIZE - 3)
               (rendered_prefix (config_param g_rp_log) RP_LOG_LEVEL_INFO ''test.c'' 1 1234
                  @ long_message))"
proof -
  have acc: "\<not> level_rejected (output_range (config_param g_rp_log)) RP_LOG_LEVEL_INFO"
    by (simp add: g_rp_log_def)
  have room: "\<not> RB_IsFull (ring_buffer g_rp_log)"
    by (simp add: g_rp_log_def room_zero)
  have fits: "length (rendered_prefix (config_param g_rp_log) RP_LOG_LEVEL_INFO ''test.c'' 1 1234)
     \<le> RP_LOG_ENTRY_MAX_SIZE"
    by code_simp
  have long: "RP_LOG_ENTRY_MAX_SIZE - 2
     \<le> length (rendered_prefix (config_param g_rp_log) RP_LOG_LEVEL_INFO ''test.c'' 1 1234
                 @ long_message)"
    by (simp add: long_message_def RP_LOG_ENTRY_MAX_SIZE_def)
  show ?thesis
    using acc rb_valid_g_rp_log room fits long
      truncated_record [OF acc rb_valid_g_rp_log room fits long]
    by simp
qed

text \<open>
  The record of a message of 300 characters has 255 bytes, not \<open>RP_LOG_ENTRY_MAX_SIZE\<close>.
\<close>

theorem truncated_length_counterexample:
  "RP_LOG_ENTRY_MAX_SIZE
     \<le> length (rendered_prefix (config_param g_rp_log) RP_LOG_LEVEL_INFO ''test.c'' 1 1234
                 @ long_message) \<and>
   \<not> isl (RP_Log_Write (Ptr g_rp_log) RP_LOG_LEVEL_INFO ''test.c'' 1 long_message 1234
            zero_bytes) \<and>
   fst (projr (RP_Log_Write (Ptr g_rp_log) RP_LOG_LEVEL_INFO ''test.c'' 1 long_message 1234
                 zero_bytes)) = 0 \<and>
   map length
     (contents (ring_buffer (deref (snd (projr
        (RP_Log_Write (Ptr g_rp_log) RP_LOG_LEVEL_INFO ''test.c'' 1 long_message 1234
           zero_bytes)))))) = [255] \<and>
   255 \<noteq> RP_LOG_ENTRY_MAX_SIZE"
  by code_simp

subsection \<open>The format of a record\<close>

lemma g_level_names_tokens:
  "g_level_names level \<in> {''FATAL'', ''ERROR'', ''WARN '', ''INFO '', ''DEBUG'', ''TRACE''}"
  "length (g_level_names level) = 5"
  by (cases level; simp)+

lemma rendered_prefix_text:
  "rendered_prefix cfg level file line tick =
     (if use_timestamp cfg \<noteq> 0 then ''['' @ dec (unat tick) @ ''] '' else '''') @
     ''['' @ g_level_names level @ '']['' @ extract_filename file @ '':'' @ fmt_d line @ '']: ''"
  by (simp add: rendered_prefix_def USE_HAL_DRIVER_def fmt_timestamp_def fmt_lu_def
      fmt_location_def)

text \<open>
  Claim C6, as the code has it. Take a write that passes the filter and finds room in a
  valid ring buffer, and whose prefix and message together have at most
  \<open>RP_LOG_ENTRY_MAX_SIZE - 3\<close> characters, so that nothing is cut. It returns 0 and appends
  the record \<^verbatim>\<open>[<ticks>] [<LEVEL>][<file>:<line>]: <message>\r\n\<close> with timestamps
  enabled, and the same record without the segment \<^verbatim>\<open>[<ticks>] \<close>, so that it begins with
  \<^verbatim>\<open>[<LEVEL>]\<close>, with timestamps disabled. \<^verbatim>\<open><ticks>\<close> and \<^verbatim>\<open><line>\<close> are decimal,
  \<^verbatim>\<open><file>\<close> is the extracted file name and \<^verbatim>\<open><LEVEL>\<close> is one of the six tokens of five
  characters.
\<close>

theorem record_format:
  assumes acc: "\<not> level_rejected (output_range (config_param lg)) level"
    and v: "rb_valid (ring_buffer lg)"
    and room: "\<not> RB_IsFull (ring_buffer lg)"
    and short: "length (rendered_prefix (config_param lg) level file line tick @ message)
                  \<le> RP_LOG_ENTRY_MAX_SIZE - 3"
  shows "\<exists>lg'. RP_Log_Write (Ptr lg) level file line message tick init = Inr (0, Ptr lg') \<and>
           contents (ring_buffer lg') =
             contents (ring_buffer lg) @
               [(if use_timestamp (config_param lg) \<noteq> 0
                 then ''['' @ dec (unat tick) @ ''] '' else '''') @
                ''['' @ g_level_names level @ '']['' @ extract_filename file @ '':'' @
                fmt_d line @ '']: '' @ message @ [CR, LF]] \<and>
           g_level_names level \<in> {''FATAL'', ''ERROR'', ''WARN '', ''INFO '', ''DEBUG'', ''TRACE''} \<and>
           length (g_level_names level) = 5"
proof -
  let ?P = "rendered_prefix (config_param lg) level file line tick"
  have fits: "length ?P \<le> RP_LOG_ENTRY_MAX_SIZE"
    using short by simp
  obtain lg' where w: "RP_Log_Write (Ptr lg) level file line message tick init = Inr (0, Ptr lg')"
    and c: "contents (ring_buffer lg') = contents (ring_buffer lg) @ [stored_text (?P @ message)]"
    using write_stores [OF acc fits v room, where message = message and init = init] by blast
  have "stored_text (?P @ message) = ?P @ message @ [CR, LF]"
    using stored_text_short [OF short] by simp
  then have "contents (ring_buffer lg') =
             contents (ring_buffer lg) @
               [(if use_timestamp (config_param lg) \<noteq> 0
                 then ''['' @ dec (unat tick) @ ''] '' else '''') @
                ''['' @ g_level_names level @ '']['' @ extract_filename file @ '':'' @
                fmt_d line @ '']: '' @ message @ [CR, LF]]"
    unfolding c by (simp add: rendered_prefix_text)
  then show ?thesis
    using w g_level_names_tokens [of level] by blast
qed

theorem record_format_witness:
  "\<not> level_rejected (output_range (config_param g_rp_log)) RP_LOG_LEVEL_INFO \<and>
   rb_valid (ring_buffer g_rp_log) \<and>
   \<not> RB_IsFull (ring_buffer g_rp_log) \<and>
   length (rendered_prefix (config_param g_rp_log) RP_LOG_LEVEL_INFO ''src/test.c'' 1 1234 @ ''msg'')
     \<le> RP_LOG_ENTRY_MAX_SIZE - 3 \<and>
   (\<exists>lg'. RP_Log_Write (Ptr g_rp_log) RP_LOG_LEVEL_INFO ''src/test.c'' 1 ''msg'' 1234 zero_bytes =
            Inr (0, Ptr lg') \<and>
          contents (ring_buffer lg') = [''[1234] [INFO ][test.c:1]: msg'' @ [CR, LF]]) \<and>
   \<not> level_rejected (output_range (config_param plain_log)) RP_LOG_LEVEL_WARN \<and>
   rb_valid (ring_buffer plain_log) \<and>
   \<not> RB_IsFull (ring_buffer plain_log) \<and>
   length (rendered_prefix (config_param plain_log) RP_LOG_LEVEL_WARN ''main.c'' 45 1234
             @ ''Battery low'') \<le> RP_LOG_ENTRY_MAX_SIZE - 3 \<and>
   (\<exists>lg'. RP_Log_Write (Ptr plain_log) RP_LOG_LEVEL_WARN ''main.c'' 45 ''Battery low'' 1234
            zero_bytes = Inr (0, Ptr lg') \<and>
          contents (ring_buffer lg') = [''[WARN ][main.c:45]: Battery low'' @ [CR, LF]])"
proof -
  have acc: "\<not> level_rejected (output_range (config_param g_rp_log)) RP_LOG_LEVEL_INFO"
    by (simp add: g_rp_log_def)
  have room: "\<not> RB_IsFull (ring_buffer g_rp_log)"
    by (simp add: g_rp_log_def room_zero)
  have short: "length (rendered_prefix (config_param g_rp_log) RP_LOG_LEVEL_INFO ''src/test.c'' 1 1234
                 @ ''msg'') \<le> RP_LOG_ENTRY_MAX_SIZE - 3"
    by code_simp
  have ts: "use_timestamp (config_param g_rp_log) \<noteq> 0"
    by (simp add: g_rp_log_def)
  have d: "dec 1234 = ''1234''" "fmt_d 1 = ''1''" "fmt_d 45 = ''45''"
    "extract_filename ''src/test.c'' = ''test.c''" "extract_filename ''main.c'' = ''main.c''"
    by code_simp+
  have e: "contents (ring_buffer g_rp_log) = []"
    by (simp add: g_rp_log_def contents_zero)
  have acc': "\<not> level_rejected (output_range (config_param plain_log)) RP_LOG_LEVEL_WARN"
    by (simp add: plain_log_def)
  have v': "rb_valid (ring_buffer plain_log)"
    by (simp add: plain_log_def rb_valid_g_rp_log)
  have room': "\<not> RB_IsFull (ring_buffer plain_log)"
    by (simp add: plain_log_def g_rp_log_def room_zero)
  have short': "length (rendered_prefix (config_param plain_log) RP_LOG_LEVEL_WARN ''main.c'' 45 1234
                 @ ''Battery low'') \<le> RP_LOG_ENTRY_MAX_SIZE - 3"
    by code_simp
  have ts': "use_timestamp (config_param plain_log) = 0"
    by (simp add: plain_log_def)
  have e': "contents (ring_buffer plain_log) = []"
    by (simp add: plain_log_def g_rp_log_def contents_zero)
  have one: "\<exists>lg'. RP_Log_Write (Ptr g_rp_log) RP_LOG_LEVEL_INFO ''src/test.c'' 1 ''msg'' 1234
                 zero_bytes = Inr (0, Ptr lg') \<and>
          contents (ring_buffer lg') = [''[1234] [INFO ][test.c:1]: msg'' @ [CR, LF]]"
    using record_format [OF acc rb_valid_g_rp_log room short, of zero_bytes]
    by (simp add: ts d e)
  have two: "\<exists>lg'. RP_Log_Write (Ptr plain_log) RP_LOG_LEVEL_WARN ''main.c'' 45 ''Battery low'' 1234
            zero_bytes = Inr (0, Ptr lg') \<and>
          contents (ring_buffer lg') = [''[WARN ][main.c:45]: Battery low'' @ [CR, LF]]"
    using record_format [OF acc' v' room' short', of zero_bytes]
    by (simp add: ts' d e')
  show ?thesis
    using acc rb_valid_g_rp_log room short one acc' v' room' short' two
    by (intro conjI)
qed

text \<open>
  An accepted write with timestamps enabled and a message of 300 characters: the record
  is not the full text, it is cut.
\<close>

theorem record_format_counterexample:
  "\<not> level_rejected (output_range (config_param g_rp_log)) RP_LOG_LEVEL_ERROR \<and>
   use_timestamp (config_param g_rp_log) \<noteq> 0 \<and>
   \<not> isl (RP_Log_Write (Ptr g_rp_log) RP_LOG_LEVEL_ERROR ''task.c'' 20 long_message 7
            zero_bytes) \<and>
   fst (projr (RP_Log_Write (Ptr g_rp_log) RP_LOG_LEVEL_ERROR ''task.c'' 20 long_message 7
                 zero_bytes)) = 0 \<and>
   contents (ring_buffer (deref (snd (projr
     (RP_Log_Write (Ptr g_rp_log) RP_LOG_LEVEL_ERROR ''task.c'' 20 long_message 7
        zero_bytes))))) \<noteq>
     [''[7] [ERROR][task.c:20]: '' @ long_message @ [CR, LF]]"
  by code_simp

subsection \<open>The file name\<close>

lemma strrchr_None: "strrchr s c = None \<longleftrightarrow> c \<notin> set s"
  by (induction s) (auto split: option.splits)

lemma strrchr_Some:
  "strrchr s c = Some i \<Longrightarrow> s = take i s @ c # drop (Suc i) s \<and> c \<notin> set (drop (Suc i) s)"
proof (induction s arbitrary: i)
  case Nil
  then show ?case by simp
next
  case (Cons x xs)
  show ?case
  proof (cases "strrchr xs c")
    case None
    then have "c \<notin> set xs"
      by (simp add: strrchr_None)
    then show ?thesis
      using Cons.prems None by (auto split: if_splits)
  next
    case (Some j)
    then show ?thesis
      using Cons.prems Cons.IH [OF Some] by auto
  qed
qed

lemma last_component_after_separator:
  assumes "is_separator c" "\<forall>x \<in> set suf. \<not> is_separator x"
  shows "last_component_spec (pre @ c # suf) = suf"
proof -
  have "takeWhile (\<lambda>c. \<not> is_separator c) (rev suf @ c # rev pre) =
          takeWhile (\<lambda>c. \<not> is_separator c) (rev suf)"
    using assms(1) by (simp add: takeWhile_tail)
  also have "\<dots> = rev suf"
    using assms(2) by (simp add: takeWhile_eq_all_conv)
  finally have "takeWhile (\<lambda>c. \<not> is_separator c) (rev suf @ c # rev pre) = rev suf" .
  then show ?thesis
    by (simp add: last_component_spec_def)
qed

lemma last_component_no_separator:
  assumes "\<forall>x \<in> set file. \<not> is_separator x"
  shows "last_component_spec file = file"
  using assms by (simp add: last_component_spec_def takeWhile_eq_all_conv [THEN iffD2])

lemma last_component_has_no_separator:
  "x \<in> set (last_component_spec file) \<Longrightarrow> \<not> is_separator x"
  by (auto simp: last_component_spec_def dest: set_takeWhileD)

text \<open>
  The extracted file name is the last path component exactly when it contains no slash,
  that is, when no slash follows the last backslash of the path.
\<close>

lemma extract_filename_last_component:
  "extract_filename file = last_component_spec file \<longleftrightarrow> SLASH \<notin> set (extract_filename file)"
proof (cases "strrchr file BACKSLASH")
  case None
  then have nb: "BACKSLASH \<notin> set file"
    by (simp add: strrchr_None)
  show ?thesis
  proof (cases "strrchr file SLASH")
    case n: None
    then have "\<forall>x \<in> set file. \<not> is_separator x"
      using nb by (auto simp: strrchr_None is_separator_def)
    then show ?thesis
      using None n last_component_no_separator [of "file"]
      by (simp add: extract_filename_def strrchr_None [symmetric])
  next
    case (Some j)
    let ?suf = "drop (Suc j) file"
    have f: "file = take j file @ SLASH # ?suf" and ns: "SLASH \<notin> set ?suf"
      using strrchr_Some [OF Some] by simp_all
    have "BACKSLASH \<notin> set ?suf"
      using nb by (auto dest: in_set_dropD)
    then have "\<forall>x \<in> set ?suf. \<not> is_separator x"
      using ns by (auto simp: is_separator_def)
    then have "last_component_spec (take j file @ SLASH # ?suf) = ?suf"
      by (intro last_component_after_separator) (simp add: is_separator_def)
    then have "last_component_spec file = ?suf"
      using f by simp
    then show ?thesis
      using None Some ns by (simp add: extract_filename_def)
  qed
next
  case (Some i)
  let ?suf = "drop (Suc i) file"
  have e: "extract_filename file = ?suf"
    using Some by (simp add: extract_filename_def)
  have f: "file = take i file @ BACKSLASH # ?suf" and nb: "BACKSLASH \<notin> set ?suf"
    using strrchr_Some [OF Some] by simp_all
  show ?thesis
  proof (cases "SLASH \<in> set ?suf")
    case True
    then have "?suf \<noteq> last_component_spec file"
      using last_component_has_no_separator [of SLASH "file"] by (auto simp: is_separator_def)
    then show ?thesis
      using True e by simp
  next
    case False
    then have "\<forall>x \<in> set ?suf. \<not> is_separator x"
      using nb by (auto simp: is_separator_def)
    then have "last_component_spec (take i file @ BACKSLASH # ?suf) = ?suf"
      by (intro last_component_after_separator) (simp add: is_separator_def)
    then have "last_component_spec file = ?suf"
      using f by simp
    then show ?thesis
      using False e by simp
  qed
qed

text \<open>
  Claim C7 says that the file name in a record is the last path component for every
  mixture of separators. The code looks for the last backslash first and only without
  one for the last slash: for \<^verbatim>\<open>src\sub/main.c\<close> it keeps \<^verbatim>\<open>sub/main.c\<close>, where the last
  path component is \<^verbatim>\<open>main.c\<close>, and the record contains \<^verbatim>\<open>[sub/main.c:45]\<close>.
\<close>

theorem extract_filename_mixed_separators:
  "extract_filename (''src'' @ [BACKSLASH] @ ''sub/main.c'') = ''sub/main.c'' \<and>
   last_component_spec (''src'' @ [BACKSLASH] @ ''sub/main.c'') = ''main.c'' \<and>
   contents (ring_buffer (deref (snd (projr
     (RP_Log_Write (Ptr plain_log) RP_LOG_LEVEL_INFO (''src'' @ [BACKSLASH] @ ''sub/main.c'') 45
        ''x'' 0 zero_bytes))))) =
     [''[INFO ][sub/main.c:45]: x'' @ [CR, LF]]"
  by code_simp

subsection \<open>Flush\<close>

text \<open>
  Claim C8. After one \<open>RP_Log_Flush\<close> and after a second one \<open>RP_Log_GetCount\<close> is 0. The
  ring buffer after the second flush is the zeroed one of the initial \<open>g_rp_log\<close>, with
  \<open>head\<close>, \<open>tail\<close> and \<open>count\<close> all 0, and a push into it returns 0 and leaves \<open>head = 1\<close>,
  \<open>tail = 0\<close> and \<open>count = 1\<close>.
\<close>

theorem flush_twice:
  "RP_Log_GetCount (RP_Log_Flush (Ptr lg)) = 0 \<and>
   RP_Log_GetCount (RP_Log_Flush (RP_Log_Flush (Ptr lg))) = 0 \<and>
   RP_Log_Flush (RP_Log_Flush (Ptr lg)) = RP_Log_Flush (Ptr lg) \<and>
   RP_Log_Flush (RP_Log_Flush (Ptr lg)) = Ptr (lg\<lparr>ring_buffer := ring_buffer g_rp_log\<rparr>) \<and>
   ring_buffer g_rp_log = rb_zero \<and>
   head rb_zero = 0 \<and> tail rb_zero = 0 \<and> count rb_zero = 0 \<and>
   RB_Push (ring_buffer (deref (RP_Log_Flush (RP_Log_Flush (Ptr lg))))) dat len =
     RB_Push (ring_buffer g_rp_log) dat len \<and>
   fst (RB_Push rb_zero dat len) = 0 \<and>
   head (snd (RB_Push rb_zero dat len)) = 1 \<and>
   tail (snd (RB_Push rb_zero dat len)) = 0 \<and>
   count (snd (RB_Push rb_zero dat len)) = 1"
  by (simp add: RP_Log_GetCount_def RP_Log_Flush_def g_rp_log_def RB_Push_def RB_IsFull_def
      RB_GetNextIndex_def Let_def rb_zero_def RP_LOG_RING_BUFFER_CNT_def)

subsection \<open>The NULL facility\<close>

text \<open>
  Claim C9. With a \<^verbatim>\<open>NULL\<close> facility pointer \<open>RP_Log_Write\<close> returns \<open>-1\<close>, \<open>RP_Log_GetCount\<close>
  returns 0, and \<open>RP_Log_Work\<close> and \<open>RP_Log_Flush\<close> return at once: no facility is read or
  changed and the transport is not called, whatever the other arguments are.
\<close>

theorem null_facility:
  "RP_Log_Write NULL level file line message tick init = Inr (- 1, NULL) \<and>
   RP_Log_GetCount NULL = 0 \<and>
   RP_Log_Work transmit NULL init length0 = (NULL, None) \<and>
   RP_Log_Flush NULL = NULL"
  by (simp add: RP_Log_Write_def RP_Log_GetCount_def RP_Log_Work_def RP_Log_Flush_def)

subsection \<open>The consumer\<close>

lemma repush:
  fixes rb :: RP_LogRingBuffer_t and buffer0 :: string and length0 :: uint16_t
  assumes v: "rb_valid rb" and c: "contents rb = r # rs"
  defines "p \<equiv> RB_Pop rb buffer0 length0"
  defines "q \<equiv> RB_Push (fst (snd p)) (fst (snd (snd p))) (snd (snd (snd p)))"
  shows "fst p = 0"
    and "pop_record_out p = r"
    and "contents (fst (snd p)) = rs"
    and "rb_valid (fst (snd p))"
    and "\<not> RB_IsFull (fst (snd p))"
    and "fst q = 0"
    and "rb_valid (snd q)"
    and "contents (snd q) = rs @ [r]"
    and "count (snd q) = count rb"
proof -
  let ?rb = "fst (snd p)" and ?buf = "fst (snd (snd p))" and ?len = "snd (snd (snd p))"
  note h = pop_head [OF v c, of buffer0 length0, folded p_def]
  show "fst p = 0" by (rule h(1))
  show r: "pop_record_out p = r" using h(2) by (simp add: pop_record_out_def)
  show rs: "contents ?rb = rs" by (rule h(4))
  show v1: "rb_valid ?rb" by (rule h(5))
  have ne: "\<not> RB_IsEmpty rb"
    using length_contents [of rb] c by (simp add: nonempty_iff)
  have "unat (count rb) \<le> RP_LOG_RING_BUFFER_CNT" "0 < unat (count rb)"
    using v ne by (simp_all add: rb_valid_def rb_indices_def nonempty_iff)
  moreover have c1: "unat (count ?rb) = unat (count rb) - 1"
    using pop_fields(2) [OF ne, of buffer0 length0] by (simp add: p_def)
  ultimately show nf: "\<not> RB_IsFull ?rb"
    by (simp add: RB_IsFull_def)
  have "entry_valid (entries rb ! unat (tail rb))"
    using v by (simp add: rb_valid_entry rb_valid_def rb_indices_def)
  then have le: "unat ?len \<le> RP_LOG_ENTRY_MAX_SIZE"
    using pop_out(1) [OF ne, of buffer0 length0] by (simp add: p_def entry_valid_def)
  have "length (take (unat ?len) ?buf) = unat ?len"
    using h(2,3) by simp
  then have "unat ?len \<le> length ?buf"
    by simp
  then have src: "min (unat ?len) RP_LOG_ENTRY_MAX_SIZE \<le> length ?buf"
    by simp
  have m: "min (unat ?len) RP_LOG_ENTRY_MAX_SIZE = unat ?len"
    using le by simp
  show "fst q = 0"
    unfolding q_def by (rule push_fields(1) [OF nf])
  show "rb_valid (snd q)"
    unfolding q_def by (rule push_valid [OF v1 nf src])
  show "contents (snd q) = rs @ [r]"
    unfolding q_def push_contents [OF v1 nf src] m using rs h(2) by simp
  have "unat (count (snd q)) = unat (count ?rb) + 1"
    unfolding q_def by (rule push_fields(2) [OF nf])
  then have "unat (count (snd q)) = unat (count rb)"
    using c1 \<open>0 < unat (count rb)\<close> by simp
  then show "count (snd q) = count rb"
    by (simp add: word_unat_eq_iff)
qed

lemma work_result:
  fixes lg :: RP_Log_t and init :: "nat \<Rightarrow> char" and length0 :: uint16_t
  defines "p \<equiv> RB_Pop (ring_buffer lg) (local_array init RP_LOG_ENTRY_MAX_SIZE) length0"
  assumes "fst p = 0"
  shows "RP_Log_Work transmit (Ptr lg) init length0 =
           (if transmit (fst (snd (snd p))) (snd (snd (snd p))) \<noteq> 0
            then Ptr (lg\<lparr>ring_buffer :=
                   snd (RB_Push (fst (snd p)) (fst (snd (snd p))) (snd (snd (snd p))))\<rparr>)
            else Ptr (lg\<lparr>ring_buffer := fst (snd p)\<rparr>),
            Some (fst (snd (snd p)), snd (snd (snd p))))"
  using assms(2) unfolding p_def by (simp add: RP_Log_Work_def split_beta)

lemma work_empty:
  "RB_IsEmpty (ring_buffer lg) \<Longrightarrow>
     RP_Log_Work transmit (Ptr lg) init length0 = (Ptr lg, None)"
  by (simp add: RP_Log_Work_def pop_empty)

lemma work_fails:
  fixes lg :: RP_Log_t and init :: "nat \<Rightarrow> char" and length0 :: uint16_t
    and transmit :: "string \<Rightarrow> uint16_t \<Rightarrow> int"
  assumes v: "rb_valid (ring_buffer lg)" and c: "contents (ring_buffer lg) = r # rs"
    and fail: "\<forall>dat len. transmit dat len \<noteq> 0"
  defines "w \<equiv> RP_Log_Work transmit (Ptr lg) init length0"
  shows "sent_record (snd w) = Some r"
    and "\<exists>lg'. fst w = Ptr lg' \<and> config_param lg' = config_param lg \<and>
           rb_valid (ring_buffer lg') \<and> contents (ring_buffer lg') = rs @ [r] \<and>
           count (ring_buffer lg') = count (ring_buffer lg)"
proof -
  note h = repush [OF v c, of "local_array init RP_LOG_ENTRY_MAX_SIZE" length0]
  have w: "w = (Ptr (lg\<lparr>ring_buffer := snd (RB_Push (fst (snd (RB_Pop (ring_buffer lg) (local_array init RP_LOG_ENTRY_MAX_SIZE) length0)))
                  (fst (snd (snd (RB_Pop (ring_buffer lg) (local_array init RP_LOG_ENTRY_MAX_SIZE) length0))))
                  (snd (snd (snd (RB_Pop (ring_buffer lg) (local_array init RP_LOG_ENTRY_MAX_SIZE) length0)))))\<rparr>),
               Some (fst (snd (snd (RB_Pop (ring_buffer lg) (local_array init RP_LOG_ENTRY_MAX_SIZE) length0))),
                     snd (snd (snd (RB_Pop (ring_buffer lg) (local_array init RP_LOG_ENTRY_MAX_SIZE) length0)))))"
    unfolding w_def work_result [OF h(1)] using fail by simp
  show "sent_record (snd w) = Some r"
    unfolding w using h(2) by (simp add: sent_record_def pop_record_out_def split_beta)
  show "\<exists>lg'. fst w = Ptr lg' \<and> config_param lg' = config_param lg \<and>
           rb_valid (ring_buffer lg') \<and> contents (ring_buffer lg') = rs @ [r] \<and>
           count (ring_buffer lg') = count (ring_buffer lg)"
    unfolding w using h(7,8,9) by simp
qed

lemma work_sends:
  fixes lg :: RP_Log_t and init :: "nat \<Rightarrow> char" and length0 :: uint16_t
    and transmit :: "string \<Rightarrow> uint16_t \<Rightarrow> int"
  assumes v: "rb_valid (ring_buffer lg)" and c: "contents (ring_buffer lg) = r # rs"
    and ok: "\<forall>dat len. transmit dat len = 0"
  defines "w \<equiv> RP_Log_Work transmit (Ptr lg) init length0"
  shows "sent_record (snd w) = Some r"
    and "\<exists>lg'. fst w = Ptr lg' \<and> config_param lg' = config_param lg \<and>
           rb_valid (ring_buffer lg') \<and> contents (ring_buffer lg') = rs"
proof -
  note h = repush [OF v c, of "local_array init RP_LOG_ENTRY_MAX_SIZE" length0]
  have w: "w = (Ptr (lg\<lparr>ring_buffer := fst (snd (RB_Pop (ring_buffer lg) (local_array init RP_LOG_ENTRY_MAX_SIZE) length0))\<rparr>),
               Some (fst (snd (snd (RB_Pop (ring_buffer lg) (local_array init RP_LOG_ENTRY_MAX_SIZE) length0))),
                     snd (snd (snd (RB_Pop (ring_buffer lg) (local_array init RP_LOG_ENTRY_MAX_SIZE) length0)))))"
    unfolding w_def work_result [OF h(1)] using ok by simp
  show "sent_record (snd w) = Some r"
    unfolding w using h(2) by (simp add: sent_record_def pop_record_out_def split_beta)
  show "\<exists>lg'. fst w = Ptr lg' \<and> config_param lg' = config_param lg \<and>
           rb_valid (ring_buffer lg') \<and> contents (ring_buffer lg') = rs"
    unfolding w using h(3,4) by simp
qed

lemma contents_empty: "RB_IsEmpty rb \<Longrightarrow> contents rb = []"
  by (simp add: RB_IsEmpty_def contents_def)

lemma work_fails_rotate:
  fixes lg :: RP_Log_t and init :: "nat \<Rightarrow> char" and length0 :: uint16_t
    and transmit :: "string \<Rightarrow> uint16_t \<Rightarrow> int"
  assumes v: "rb_valid (ring_buffer lg)"
    and fail: "\<forall>dat len. transmit dat len \<noteq> 0"
  shows "\<exists>lg'. fst (RP_Log_Work transmit (Ptr lg) init length0) = Ptr lg' \<and>
           rb_valid (ring_buffer lg') \<and>
           contents (ring_buffer lg') = rotate1 (contents (ring_buffer lg)) \<and>
           count (ring_buffer lg') = count (ring_buffer lg)"
proof (cases "contents (ring_buffer lg)")
  case Nil
  then have "unat (count (ring_buffer lg)) = 0"
    using length_contents [of "ring_buffer lg"] by simp
  then have "RB_IsEmpty (ring_buffer lg)"
    using nonempty_iff [of "ring_buffer lg"] by simp
  then show ?thesis
    using v Nil by (simp add: work_empty)
next
  case (Cons r rs)
  show ?thesis
    using work_fails(2) [OF v Cons fail, of init length0] Cons by auto
qed

lemma work_run_rotate:
  fixes lg :: RP_Log_t and transmit :: "string \<Rightarrow> uint16_t \<Rightarrow> int"
  assumes "rb_valid (ring_buffer lg)"
    and fail: "\<forall>dat len. transmit dat len \<noteq> 0"
  shows "\<exists>lg'. work_run transmit (Ptr lg) locals = Ptr lg' \<and>
           rb_valid (ring_buffer lg') \<and>
           contents (ring_buffer lg') = rotate (length locals) (contents (ring_buffer lg)) \<and>
           count (ring_buffer lg') = count (ring_buffer lg)"
  using assms(1)
proof (induction locals arbitrary: lg)
  case Nil
  then show ?case by (simp add: work_run_def)
next
  case (Cons x xs)
  obtain init length0 where x: "x = (init, length0)" by (cases x)
  obtain lg1 where w: "fst (RP_Log_Work transmit (Ptr lg) init length0) = Ptr lg1"
    and v1: "rb_valid (ring_buffer lg1)"
    and c1: "contents (ring_buffer lg1) = rotate1 (contents (ring_buffer lg))"
    and n1: "count (ring_buffer lg1) = count (ring_buffer lg)"
    using work_fails_rotate [OF Cons.prems fail, of init length0] by blast
  have step: "work_run transmit (Ptr lg) (x # xs) = work_run transmit (Ptr lg1) xs"
    by (simp add: work_run_def x w)
  show ?case
    using Cons.IH [OF v1] unfolding step c1 n1
    by (simp add: rotate1_rotate_swap)
qed

text \<open>
  Claim C5, as the code has it. \<open>RP_Log_Work\<close> on a valid ring buffer whose oldest record
  is \<open>r\<close>, with a transport that fails, hands \<open>r\<close> to the transport and pushes it again:
  \<open>RP_Log_GetCount\<close> after the call equals the count before it. The push puts \<open>r\<close> behind
  the other records \<open>rs\<close> of the buffer. Every further call with the failing transport
  moves the oldest record to the back in the same way and keeps the count. After \<open>k\<close> such
  calls the next \<open>RP_Log_Work\<close> with a transport that succeeds sends the record at position
  \<open>k mod (length rs + 1)\<close> of \<open>rs @ [r]\<close> and removes it. That record is \<open>r\<close> if \<open>r\<close> was the
  only record in the buffer; it is the oldest of the other records if there are others
  and the successful call follows the first failing call at once.
\<close>

theorem work_send_failure:
  fixes lg :: RP_Log_t and bufx bufy :: "nat \<Rightarrow> char" and lenx leny :: uint16_t
    and failing succeeding :: "string \<Rightarrow> uint16_t \<Rightarrow> int"
    and more :: "((nat \<Rightarrow> char) \<times> uint16_t) list"
  assumes v: "rb_valid (ring_buffer lg)" and c: "contents (ring_buffer lg) = r # rs"
    and fail: "\<forall>dat len. failing dat len \<noteq> 0"
    and ok: "\<forall>dat len. succeeding dat len = 0"
  defines "w1 \<equiv> RP_Log_Work failing (Ptr lg) bufx lenx"
  defines "lgk \<equiv> work_run failing (fst w1) more"
  defines "w2 \<equiv> RP_Log_Work succeeding lgk bufy leny"
  shows "sent_record (snd w1) = Some r \<and>
         RP_Log_GetCount (fst w1) = RP_Log_GetCount (Ptr lg) \<and>
         contents (ring_buffer (deref (fst w1))) = rs @ [r] \<and>
         RP_Log_GetCount lgk = RP_Log_GetCount (Ptr lg) \<and>
         contents (ring_buffer (deref lgk)) = rotate (length more) (rs @ [r]) \<and>
         sent_record (snd w2) = Some ((rs @ [r]) ! (length more mod (length rs + 1))) \<and>
         contents (ring_buffer (deref (fst w2))) = tl (rotate (length more) (rs @ [r])) \<and>
         (rs = [] \<longrightarrow> sent_record (snd w2) = Some r) \<and>
         (rs \<noteq> [] \<and> more = [] \<longrightarrow> sent_record (snd w2) = Some (hd rs))"
proof -
  let ?X = "rotate (length more) (rs @ [r])"
  note f = work_fails [OF v c fail, of bufx lenx, folded w1_def]
  obtain lg1 where w1: "fst w1 = Ptr lg1" and v1: "rb_valid (ring_buffer lg1)"
    and c1: "contents (ring_buffer lg1) = rs @ [r]"
    and n1: "count (ring_buffer lg1) = count (ring_buffer lg)"
    using f(2) by blast
  obtain lg2 where k: "lgk = Ptr lg2" and v2: "rb_valid (ring_buffer lg2)"
    and c2: "contents (ring_buffer lg2) = ?X"
    and n2: "count (ring_buffer lg2) = count (ring_buffer lg)"
    using work_run_rotate [OF v1 fail, of more] unfolding lgk_def w1 c1 n1 by blast
  have ne: "?X \<noteq> []"
    by simp
  have c2': "contents (ring_buffer lg2) = hd ?X # tl ?X"
    unfolding c2 using ne by simp
  have w2e: "w2 = RP_Log_Work succeeding (Ptr lg2) bufy leny"
    by (simp add: w2_def k)
  note s = work_sends [OF v2 c2' ok, of bufy leny, folded w2e]
  obtain lg3 where w2: "fst w2 = Ptr lg3" and c3: "contents (ring_buffer lg3) = tl ?X"
    using s(2) by blast
  have h: "hd ?X = (rs @ [r]) ! (length more mod (length rs + 1))"
    using hd_rotate_conv_nth [of "rs @ [r]" "length more"] by simp
  have single: "(rs @ [r]) ! (length more mod (length rs + 1)) = r" if "rs = []"
    using that by simp
  have second: "(rs @ [r]) ! (length more mod (length rs + 1)) = hd rs" if "rs \<noteq> []" "more = []"
    using that by (cases rs) simp_all
  show ?thesis
    using f(1) s(1) w1 c1 n1 k c2 n2 w2 c3 h single second
    by (simp add: RP_Log_GetCount_def)
qed

lemma one_record_log_queue:
  "rb_valid (ring_buffer one_record_log)"
  "contents (ring_buffer one_record_log) = [''first'']"
proof -
  have src: "min (unat (5 :: uint16_t)) RP_LOG_ENTRY_MAX_SIZE \<le> length ''first''"
    by (simp add: RP_LOG_ENTRY_MAX_SIZE_def)
  show "rb_valid (ring_buffer one_record_log)"
    using push_valid [OF rb_valid_zero room_zero src] by (simp add: one_record_log_def)
  show "contents (ring_buffer one_record_log) = [''first'']"
    using push_contents [OF rb_valid_zero room_zero src]
    by (simp add: one_record_log_def contents_zero RP_LOG_ENTRY_MAX_SIZE_def)
qed

lemma two_record_log_queue:
  "rb_valid (ring_buffer two_record_log)"
  "contents (ring_buffer two_record_log) = [''first'', ''second'']"
proof -
  have s1: "min (unat (5 :: uint16_t)) RP_LOG_ENTRY_MAX_SIZE \<le> length ''first''"
    and s2: "min (unat (6 :: uint16_t)) RP_LOG_ENTRY_MAX_SIZE \<le> length ''second''"
    by (simp_all add: RP_LOG_ENTRY_MAX_SIZE_def)
  let ?r1 = "snd (RB_Push rb_zero ''first'' 5)"
  have v1: "rb_valid ?r1"
    by (rule push_valid [OF rb_valid_zero room_zero s1])
  have c1: "contents ?r1 = [''first'']"
    using push_contents [OF rb_valid_zero room_zero s1]
    by (simp add: contents_zero RP_LOG_ENTRY_MAX_SIZE_def)
  have "unat (count ?r1) = unat (count rb_zero) + 1"
    by (rule push_fields(2) [OF room_zero])
  then have n1: "\<not> RB_IsFull ?r1"
    by (simp add: RB_IsFull_def rb_zero_def RP_LOG_RING_BUFFER_CNT_def)
  show "rb_valid (ring_buffer two_record_log)"
    using push_valid [OF v1 n1 s2] by (simp add: two_record_log_def)
  show "contents (ring_buffer two_record_log) = [''first'', ''second'']"
    using push_contents [OF v1 n1 s2] c1
    by (simp add: two_record_log_def RP_LOG_ENTRY_MAX_SIZE_def)
qed

theorem work_send_failure_witness:
  "rb_valid (ring_buffer one_record_log) \<and>
   contents (ring_buffer one_record_log) = [''first''] \<and>
   rb_valid (ring_buffer two_record_log) \<and>
   contents (ring_buffer two_record_log) = [''first'', ''second''] \<and>
   (\<forall>dat len. RP_Log_Transmit dat len \<noteq> 0) \<and>
   (\<forall>dat len. transmit_ok dat len = 0) \<and>
   sent_record (snd (RP_Log_Work RP_Log_Transmit (Ptr one_record_log) zero_bytes 0)) =
     Some ''first'' \<and>
   RP_Log_GetCount (fst (RP_Log_Work RP_Log_Transmit (Ptr one_record_log) zero_bytes 0)) =
     RP_Log_GetCount (Ptr one_record_log) \<and>
   sent_record (snd (RP_Log_Work transmit_ok
     (work_run RP_Log_Transmit
        (fst (RP_Log_Work RP_Log_Transmit (Ptr one_record_log) zero_bytes 0))
        [(zero_bytes, 0), (zero_bytes, 0)]) zero_bytes 0)) = Some ''first'' \<and>
   RP_Log_GetCount (fst (RP_Log_Work RP_Log_Transmit (Ptr two_record_log) zero_bytes 0)) =
     RP_Log_GetCount (Ptr two_record_log) \<and>
   sent_record (snd (RP_Log_Work transmit_ok
     (work_run RP_Log_Transmit
        (fst (RP_Log_Work RP_Log_Transmit (Ptr two_record_log) zero_bytes 0))
        []) zero_bytes 0)) = Some ''second'' \<and>
   sent_record (snd (RP_Log_Work transmit_ok
     (work_run RP_Log_Transmit
        (fst (RP_Log_Work RP_Log_Transmit (Ptr two_record_log) zero_bytes 0))
        [(zero_bytes, 0)]) zero_bytes 0)) = Some ''first''"
proof -
  have fail: "\<forall>dat len. RP_Log_Transmit dat len \<noteq> 0"
    by (simp add: RP_Log_Transmit_def)
  have ok: "\<forall>dat len. transmit_ok dat len = 0"
    by (simp add: transmit_ok_def)
  from work_send_failure [OF one_record_log_queue fail ok,
      of zero_bytes 0 "[(zero_bytes, 0), (zero_bytes, 0)]" zero_bytes 0]
  have one: "sent_record (snd (RP_Log_Work RP_Log_Transmit (Ptr one_record_log) zero_bytes 0)) =
     Some ''first'' \<and>
   RP_Log_GetCount (fst (RP_Log_Work RP_Log_Transmit (Ptr one_record_log) zero_bytes 0)) =
     RP_Log_GetCount (Ptr one_record_log) \<and>
   sent_record (snd (RP_Log_Work transmit_ok
     (work_run RP_Log_Transmit
        (fst (RP_Log_Work RP_Log_Transmit (Ptr one_record_log) zero_bytes 0))
        [(zero_bytes, 0), (zero_bytes, 0)]) zero_bytes 0)) = Some ''first''"
    by simp
  from work_send_failure [OF two_record_log_queue fail ok, of zero_bytes 0 "[]" zero_bytes 0]
  have two: "RP_Log_GetCount (fst (RP_Log_Work RP_Log_Transmit (Ptr two_record_log) zero_bytes 0)) =
     RP_Log_GetCount (Ptr two_record_log) \<and>
   sent_record (snd (RP_Log_Work transmit_ok
     (work_run RP_Log_Transmit
        (fst (RP_Log_Work RP_Log_Transmit (Ptr two_record_log) zero_bytes 0))
        []) zero_bytes 0)) = Some ''second''"
    by simp
  from work_send_failure [OF two_record_log_queue fail ok,
      of zero_bytes 0 "[(zero_bytes, 0)]" zero_bytes 0]
  have three: "sent_record (snd (RP_Log_Work transmit_ok
     (work_run RP_Log_Transmit
        (fst (RP_Log_Work RP_Log_Transmit (Ptr two_record_log) zero_bytes 0))
        [(zero_bytes, 0)]) zero_bytes 0)) = Some ''first''"
    by simp
  show ?thesis
    using one_record_log_queue two_record_log_queue fail ok one two three by blast
qed

text \<open>
  With two records in the buffer the failing call is asked to send the first one, and
  the next call, whose send succeeds, sends the second one.
\<close>

theorem work_send_failure_counterexample:
  "RP_Log_Transmit
     (fst (the (snd (RP_Log_Work RP_Log_Transmit (Ptr two_record_log) zero_bytes 0))))
     (snd (the (snd (RP_Log_Work RP_Log_Transmit (Ptr two_record_log) zero_bytes 0)))) \<noteq> 0 \<and>
   sent_record (snd (RP_Log_Work RP_Log_Transmit (Ptr two_record_log) zero_bytes 0)) =
     Some ''first'' \<and>
   RP_Log_GetCount (fst (RP_Log_Work RP_Log_Transmit (Ptr two_record_log) zero_bytes 0)) = 2 \<and>
   transmit_ok
     (fst (the (snd (RP_Log_Work transmit_ok
        (fst (RP_Log_Work RP_Log_Transmit (Ptr two_record_log) zero_bytes 0)) zero_bytes 0))))
     (snd (the (snd (RP_Log_Work transmit_ok
        (fst (RP_Log_Work RP_Log_Transmit (Ptr two_record_log) zero_bytes 0)) zero_bytes 0)))) = 0 \<and>
   sent_record (snd (RP_Log_Work transmit_ok
     (fst (RP_Log_Work RP_Log_Transmit (Ptr two_record_log) zero_bytes 0)) zero_bytes 0)) =
     Some ''second'' \<and>
   ''second'' \<noteq> ''first''"
  by code_simp

text \<open>
  Claim C10. In a valid ring buffer that is not empty, the pop of \<open>RP_Log_Work\<close> returns
  0 and decrements \<open>count\<close>, so the buffer is not full afterwards; the push of the popped
  record into it returns 0, and the record is in the buffer again, behind the others,
  with \<open>count\<close> as before the pop. That ring buffer is the one \<open>RP_Log_Work\<close> leaves when
  the transport fails.
\<close>

theorem repush_succeeds:
  fixes rb :: RP_LogRingBuffer_t and lg :: RP_Log_t
    and init :: "nat \<Rightarrow> char" and length0 :: uint16_t
    and transmit :: "string \<Rightarrow> uint16_t \<Rightarrow> int"
  assumes v: "rb_valid rb" and ne: "\<not> RB_IsEmpty rb"
  defines "p \<equiv> RB_Pop rb (local_array init RP_LOG_ENTRY_MAX_SIZE) length0"
  defines "q \<equiv> RB_Push (fst (snd p)) (fst (snd (snd p))) (snd (snd (snd p)))"
  shows "fst p = 0 \<and>
         unat (count (fst (snd p))) = unat (count rb) - 1 \<and>
         \<not> RB_IsFull (fst (snd p)) \<and>
         fst q = 0 \<and>
         pop_record_out p = hd (contents rb) \<and>
         contents (snd q) = tl (contents rb) @ [pop_record_out p] \<and>
         count (snd q) = count rb \<and>
         (transmit (fst (snd (snd p))) (snd (snd (snd p))) \<noteq> 0 \<longrightarrow>
            fst (RP_Log_Work transmit (Ptr (lg\<lparr>ring_buffer := rb\<rparr>)) init length0) =
              Ptr (lg\<lparr>ring_buffer := snd q\<rparr>))"
proof -
  let ?p = "RB_Pop rb (local_array init RP_LOG_ENTRY_MAX_SIZE) length0"
  let ?q = "RB_Push (fst (snd ?p)) (fst (snd (snd ?p))) (snd (snd (snd ?p)))"
  obtain r rs where c: "contents rb = r # rs"
    using ne length_contents [of rb] by (cases "contents rb") (simp_all add: nonempty_iff)
  note h = repush [OF v c, of "local_array init RP_LOG_ENTRY_MAX_SIZE" length0]
  have c1: "unat (count (fst (snd ?p))) = unat (count rb) - 1"
    by (rule pop_fields(2) [OF ne])
  have "fst (RP_Log_Work transmit (Ptr (lg\<lparr>ring_buffer := rb\<rparr>)) init length0) =
          Ptr (lg\<lparr>ring_buffer := snd ?q\<rparr>)"
    if "transmit (fst (snd (snd ?p))) (snd (snd (snd ?p))) \<noteq> 0"
    using that h(1) work_result [of "lg\<lparr>ring_buffer := rb\<rparr>" init length0 transmit]
    by simp
  then show ?thesis
    unfolding p_def q_def using h c c1 by simp
qed

theorem repush_succeeds_witness:
  "rb_valid (ring_buffer one_record_log) \<and>
   \<not> RB_IsEmpty (ring_buffer one_record_log) \<and>
   RP_Log_Transmit
     (fst (snd (snd (RB_Pop (ring_buffer one_record_log) (local_array zero_bytes RP_LOG_ENTRY_MAX_SIZE) 0))))
     (snd (snd (snd (RB_Pop (ring_buffer one_record_log) (local_array zero_bytes RP_LOG_ENTRY_MAX_SIZE) 0)))) \<noteq> 0 \<and>
   fst (RB_Push (fst (snd (RB_Pop (ring_buffer one_record_log) (local_array zero_bytes RP_LOG_ENTRY_MAX_SIZE) 0)))
          (fst (snd (snd (RB_Pop (ring_buffer one_record_log) (local_array zero_bytes RP_LOG_ENTRY_MAX_SIZE) 0))))
          (snd (snd (snd (RB_Pop (ring_buffer one_record_log) (local_array zero_bytes RP_LOG_ENTRY_MAX_SIZE) 0))))) = 0 \<and>
   fst (RP_Log_Work RP_Log_Transmit (Ptr (one_record_log\<lparr>ring_buffer := ring_buffer one_record_log\<rparr>))
          zero_bytes 0) =
     Ptr (one_record_log\<lparr>ring_buffer :=
       snd (RB_Push (fst (snd (RB_Pop (ring_buffer one_record_log) (local_array zero_bytes RP_LOG_ENTRY_MAX_SIZE) 0)))
              (fst (snd (snd (RB_Pop (ring_buffer one_record_log) (local_array zero_bytes RP_LOG_ENTRY_MAX_SIZE) 0))))
              (snd (snd (snd (RB_Pop (ring_buffer one_record_log) (local_array zero_bytes RP_LOG_ENTRY_MAX_SIZE) 0)))))\<rparr>)"
proof -
  have ne: "\<not> RB_IsEmpty (ring_buffer one_record_log)"
    using length_contents [of "ring_buffer one_record_log"] one_record_log_queue(2)
    by (simp add: nonempty_iff)
  have fail: "RP_Log_Transmit
     (fst (snd (snd (RB_Pop (ring_buffer one_record_log) (local_array zero_bytes RP_LOG_ENTRY_MAX_SIZE) 0))))
     (snd (snd (snd (RB_Pop (ring_buffer one_record_log) (local_array zero_bytes RP_LOG_ENTRY_MAX_SIZE) 0)))) \<noteq> 0"
    by (simp add: RP_Log_Transmit_def)
  show ?thesis
    using one_record_log_queue(1) ne fail
      repush_succeeds [OF one_record_log_queue(1) ne, of zero_bytes 0 RP_Log_Transmit one_record_log]
    by simp
qed

subsection \<open>Validity is an invariant\<close>

text \<open>
  The validity of the ring buffer, which the theorems above assume, holds for the zeroed
  buffer and is kept by every public operation.
\<close>

lemma flush_valid: "rb_valid (ring_buffer (deref (RP_Log_Flush (Ptr lg))))"
  by (simp add: RP_Log_Flush_def rb_valid_zero)

lemma work_valid:
  assumes v: "rb_valid (ring_buffer lg)"
  shows "\<exists>lg'. fst (RP_Log_Work transmit (Ptr lg) init length0) = Ptr lg' \<and>
           rb_valid (ring_buffer lg')"
proof (cases "RB_IsEmpty (ring_buffer lg)")
  case True
  then show ?thesis using v by (simp add: work_empty)
next
  case False
  then obtain r rs where c: "contents (ring_buffer lg) = r # rs"
    using length_contents [of "ring_buffer lg"]
    by (cases "contents (ring_buffer lg)") (simp_all add: nonempty_iff)
  note h = repush [OF v c, of "local_array init RP_LOG_ENTRY_MAX_SIZE" length0]
  show ?thesis
    unfolding work_result [OF h(1)] using h(4,7) by simp
qed

lemma write_valid:
  assumes v: "rb_valid (ring_buffer lg)"
    and w: "RP_Log_Write (Ptr lg) level file line message tick init = Inr (ret, Ptr lg')"
  shows "rb_valid (ring_buffer lg')"
proof (cases "level_rejected (output_range (config_param lg)) level")
  case True
  then show ?thesis
    using v w by (simp add: write_rejected)
next
  case acc: False
  show ?thesis
  proof (cases "length (rendered_prefix (config_param lg) level file line tick)
                  \<le> RP_LOG_ENTRY_MAX_SIZE")
    case fits: True
    show ?thesis
    proof (cases "RB_IsFull (ring_buffer lg)")
      case True
      then show ?thesis
        using v w write_full [OF acc fits True, where message = message and init = init] by simp
    next
      case False
      then show ?thesis
        using w write_stores [OF acc fits v False, where message = message and init = init] by auto
    qed
  next
    case False
    then show ?thesis
      using w write_overrun [OF acc, where message = message and init = init] by simp
  qed
qed

end
